theory Spec2Isabelle
  imports Main "HOL-Library.Sublist" "HOL-Library.Multiset"
begin

section \<open>The store of the Disaster Relief Distribution Tracker\<close>

text \<open>
  The program (\<^verbatim>\<open>final code.py\<close>) keeps four SQLite tables, created by \<^verbatim>\<open>init_db\<close>:
  \<^verbatim>\<open>people(id, name, area, age)\<close>, \<^verbatim>\<open>aid_types(id, aid_name)\<close>,
  \<^verbatim>\<open>aid_requests(id, person_id, aid_type, request_date)\<close> and
  \<^verbatim>\<open>aid_delivered(id, request_id, item_given, delivery_date)\<close>.
  A table is modelled as the list of its rows in insertion (rowid) order and a row as a
  record of its columns. Python text is a list of characters, a character standing for a
  code point below 256; Python integers are \<open>int\<close>; a column that may hold NULL is an
  \<open>option\<close>.
\<close>

record person =
  p_id :: int
  p_name :: string
  p_area :: string
  p_age :: "int option"

record aid_type =
  t_id :: int
  t_aid_name :: string

record aid_request =
  r_id :: int
  r_person_id :: int
  r_aid_type :: string
  r_request_date :: string

record aid_delivery =
  d_id :: int
  d_request_id :: int
  d_item_given :: string
  d_delivery_date :: string

record db =
  people :: "person list"
  aid_types :: "aid_type list"
  aid_requests :: "aid_request list"
  aid_delivered :: "aid_delivery list"

text \<open>A database file that was just created: no row in any table.\<close>

definition empty_db :: db where
  "empty_db = \<lparr>people = [], aid_types = [], aid_requests = [], aid_delivered = []\<rparr>"

text \<open>
  The exceptions the modelled calls can raise. \<^verbatim>\<open>sqlite3\<close> raises \<open>OverflowError\<close> when
  a Python integer bound to a statement does not fit SQLite's 64-bit INTEGER, and
  \<^verbatim>\<open>int()\<close> raises \<open>ValueError\<close> on text that is not a decimal numeral. A statement
  that SQLite refuses while it runs raises \<open>OperationalError\<close>. No function of the
  program raises a validation or a not-found error of its own.
\<close>

datatype error = OverflowError | ValueError | OperationalError

definition fits_int64 :: "int \<Rightarrow> bool" where
  "fits_int64 n \<longleftrightarrow> - (2 ^ 63) \<le> n \<and> n < 2 ^ 63"

text \<open>
  \<^verbatim>\<open>id INTEGER PRIMARY KEY AUTOINCREMENT\<close>: the new id is one more than the largest id
  the table has held, 1 for an empty table. No statement of the program deletes a row,
  so the largest id ever held is the largest id present.
\<close>

definition next_id :: "int list \<Rightarrow> int" where
  "next_id ids = fold max ids 0 + 1"

text \<open>\<^verbatim>\<open>ORDER BY key DESC\<close>, rows of equal key kept in the order they were produced.\<close>

definition order_by_desc :: "('a \<Rightarrow> int) \<Rightarrow> 'a list \<Rightarrow> 'a list" where
  "order_by_desc k xs = sort_key (\<lambda>x. - k x) xs"

abbreviation descending :: "int list \<Rightarrow> bool" where
  "descending \<equiv> sorted_wrt (\<lambda>a b. b \<le> a)"

subsection \<open>Initialisation\<close>

text \<open>
  \<^verbatim>\<open>INSERT OR IGNORE INTO aid_types(aid_name) VALUES(?)\<close> on a column declared
  \<^verbatim>\<open>UNIQUE\<close>: the row is added unless a row of that name is there.
\<close>

definition insert_or_ignore_aid_type :: "string \<Rightarrow> db \<Rightarrow> db" where
  "insert_or_ignore_aid_type nm s =
     (if nm \<in> set (map t_aid_name (aid_types s)) then s
      else s\<lparr>aid_types := aid_types s @
             [\<lparr>t_id = next_id (map t_id (aid_types s)), t_aid_name = nm\<rparr>]\<rparr>)"

definition seed_names :: "string list" where
  "seed_names = [''Food'', ''Medicine'', ''Shelter'', ''Clothing'', ''Water'']"

text \<open>
  \<^verbatim>\<open>init_db\<close>: the four \<^verbatim>\<open>CREATE TABLE IF NOT EXISTS\<close> leave existing tables as
  they are, then \<^verbatim>\<open>executemany\<close> runs the insert once per seed name, in order.
\<close>

definition init_db :: "db \<Rightarrow> db" where
  "init_db s = fold insert_or_ignore_aid_type seed_names s"

subsection \<open>Mutations\<close>

text \<open>
  \<^verbatim>\<open>add_person(name, area, age)\<close> inserts \<^verbatim>\<open>(name, area, age if age else None)\<close>:
  \<open>None\<close> and \<open>0\<close> are the falsy values of an optional integer.
\<close>

definition age_or_none :: "int option \<Rightarrow> int option" where
  "age_or_none age = (case age of None \<Rightarrow> None | Some n \<Rightarrow> if n = 0 then None else Some n)"

definition add_person :: "string \<Rightarrow> string \<Rightarrow> int option \<Rightarrow> db \<Rightarrow> error + db" where
  "add_person name area age s =
     (case age_or_none age of
        Some n \<Rightarrow>
          if fits_int64 n
          then Inr (s\<lparr>people := people s @
                 [\<lparr>p_id = next_id (map p_id (people s)), p_name = name, p_area = area,
                   p_age = Some n\<rparr>]\<rparr>)
          else Inl OverflowError
      | None \<Rightarrow>
          Inr (s\<lparr>people := people s @
                 [\<lparr>p_id = next_id (map p_id (people s)), p_name = name, p_area = area,
                   p_age = None\<rparr>]\<rparr>))"

text \<open>
  \<^verbatim>\<open>add_request(pid, aid_type, req_date)\<close> and \<^verbatim>\<open>mark_delivered(rid, item, d_date)\<close>
  are one \<^verbatim>\<open>INSERT\<close> each. The schema declares
  \<^verbatim>\<open>FOREIGN KEY(person_id) REFERENCES people(id)\<close> and
  \<^verbatim>\<open>FOREIGN KEY(request_id) REFERENCES aid_requests(id)\<close>, but the connection never
  issues \<^verbatim>\<open>PRAGMA foreign_keys = ON\<close>, and SQLite checks no foreign key without it:
  neither insert looks at the referenced table. The forms pass the id as the decimal
  text cut from the selected entry, which the INTEGER column stores as that integer;
  the model takes the integer.
\<close>

definition add_request :: "int \<Rightarrow> string \<Rightarrow> string \<Rightarrow> db \<Rightarrow> error + db" where
  "add_request pid aid_type req_date s =
     (if fits_int64 pid
      then Inr (s\<lparr>aid_requests := aid_requests s @
             [\<lparr>r_id = next_id (map r_id (aid_requests s)), r_person_id = pid,
               r_aid_type = aid_type, r_request_date = req_date\<rparr>]\<rparr>)
      else Inl OverflowError)"

definition mark_delivered :: "int \<Rightarrow> string \<Rightarrow> string \<Rightarrow> db \<Rightarrow> error + db" where
  "mark_delivered rid item d_date s =
     (if fits_int64 rid
      then Inr (s\<lparr>aid_delivered := aid_delivered s @
             [\<lparr>d_id = next_id (map d_id (aid_delivered s)), d_request_id = rid,
               d_item_given = item, d_delivery_date = d_date\<rparr>]\<rparr>)
      else Inl OverflowError)"

subsection \<open>The form handler of the People tab\<close>

text \<open>
  \<^verbatim>\<open>str.isdigit\<close> on text below code point 256: the text is not empty and every
  character is one of \<open>0\<close> to \<open>9\<close> or one of the superscript digits (code points 178,
  179 and 185). \<^verbatim>\<open>int\<close> accepts, of these, the texts of \<open>0\<close> to \<open>9\<close> only.
\<close>

definition decimal_char :: "char \<Rightarrow> bool" where
  "decimal_char c \<longleftrightarrow> 48 \<le> (of_char c :: nat) \<and> (of_char c :: nat) \<le> 57"

definition digit_char :: "char \<Rightarrow> bool" where
  "digit_char c \<longleftrightarrow> decimal_char c \<or> (of_char c :: nat) \<in> {178, 179, 185}"

definition isdigit :: "string \<Rightarrow> bool" where
  "isdigit t \<longleftrightarrow> t \<noteq> [] \<and> list_all digit_char t"

definition py_int :: "string \<Rightarrow> error + int" where
  "py_int t =
     (if t \<noteq> [] \<and> list_all decimal_char t
      then Inr (foldl (\<lambda>acc c. 10 * acc + (of_char c - 48)) 0 t)
      else Inl ValueError)"

text \<open>
  What \<^verbatim>\<open>PeopleTab.on_add\<close> does to the store, and what the user sees: an error dialog
  (\<^verbatim>\<open>messagebox.showerror\<close>, title and message), an exception that leaves the handler,
  or the row added. Clearing the entry fields and refreshing the views read the store
  and do not change it.
\<close>

datatype outcome = ShowError string string | Raised error | Added

definition on_add :: "string \<Rightarrow> string \<Rightarrow> string \<Rightarrow> db \<Rightarrow> outcome \<times> db" where
  "on_add name area age s =
     (if name = [] \<or> area = [] then (ShowError ''Error'' ''Name & Area required'', s)
      else if age \<noteq> [] \<and> \<not> isdigit age then (ShowError ''Error'' ''Age must be number'', s)
      else case (if age \<noteq> [] then map_sum id Some (py_int age) else Inr None) of
             Inl e \<Rightarrow> (Raised e, s)
           | Inr a \<Rightarrow> (case add_person name area a s of
                         Inl e \<Rightarrow> (Raised e, s)
                       | Inr s' \<Rightarrow> (Added, s')))"

subsection \<open>Listing people\<close>

text \<open>
  \<^verbatim>\<open>SELECT id,name,area,COALESCE(age,'') FROM people ORDER BY id DESC\<close>: the last
  column is the integer age, or the empty text where the age is NULL.
\<close>

datatype sql_value = SqlInt int | SqlText string

definition coalesce_age :: "int option \<Rightarrow> sql_value" where
  "coalesce_age a = (case a of None \<Rightarrow> SqlText [] | Some n \<Rightarrow> SqlInt n)"

definition list_people :: "db \<Rightarrow> (int \<times> string \<times> string \<times> sql_value) list" where
  "list_people s =
     map (\<lambda>p. (p_id p, p_name p, p_area p, coalesce_age (p_age p)))
         (order_by_desc p_id (people s))"

subsection \<open>The join behind the request queries\<close>

text \<open>
  Both request queries read
  \<^verbatim>\<open>aid_requests r JOIN people p ON p.id=r.person_id LEFT JOIN aid_delivered d ON d.request_id=r.id\<close>.
  The inner join yields a pair for every request and every person row of its
  \<^verbatim>\<open>person_id\<close> (none when there is no such person). The left join yields, for each
  pair, one row per delivery row of the request, or a single row with the delivery side
  NULL (here \<open>None\<close>) when the request has no delivery row.
\<close>

definition request_person :: "db \<Rightarrow> (aid_request \<times> person) list" where
  "request_person s =
     concat (map (\<lambda>r. map (Pair r) (filter (\<lambda>p. p_id p = r_person_id r) (people s)))
                 (aid_requests s))"

definition deliveries_of :: "db \<Rightarrow> aid_request \<Rightarrow> aid_delivery list" where
  "deliveries_of s r = filter (\<lambda>d. d_request_id d = r_id r) (aid_delivered s)"

type_synonym joined = "aid_request \<times> person \<times> aid_delivery option"

definition left_join_row :: "db \<Rightarrow> aid_request \<times> person \<Rightarrow> joined list" where
  "left_join_row s = (\<lambda>(r, p).
     case deliveries_of s r of
       [] \<Rightarrow> [(r, p, None)]
     | ds \<Rightarrow> map (\<lambda>d. (r, p, Some d)) ds)"

definition left_join_delivered :: "db \<Rightarrow> joined list" where
  "left_join_delivered s = concat (map (left_join_row s) (request_person s))"

definition request_of :: "joined \<Rightarrow> int" where
  "request_of = (\<lambda>(r, p, d). r_id r)"

subsection \<open>Pending requests\<close>

text \<open>
  \<^verbatim>\<open>SELECT r.id,p.name,p.area,r.aid_type,r.request_date ... WHERE d.id IS NULL ORDER BY r.id DESC\<close>.
  \<^verbatim>\<open>d.id\<close> is the primary key of the delivery, so it is NULL exactly on the rows the
  left join filled with NULL.
\<close>

definition pending_row :: "joined \<Rightarrow> int \<times> string \<times> string \<times> string \<times> string" where
  "pending_row = (\<lambda>(r, p, d). (r_id r, p_name p, p_area p, r_aid_type r, r_request_date r))"

definition list_pending_requests :: "db \<Rightarrow> (int \<times> string \<times> string \<times> string \<times> string) list" where
  "list_pending_requests s =
     map pending_row
       (order_by_desc request_of (filter (\<lambda>(r, p, d). d = None) (left_join_delivered s)))"

subsection \<open>Search\<close>

text \<open>
  SQLite's \<^verbatim>\<open>LIKE\<close> with its defaults (no \<^verbatim>\<open>ESCAPE\<close>, no
  \<^verbatim>\<open>PRAGMA case_sensitive_like\<close>): \<^verbatim>\<open>%\<close> in the pattern matches any run of
  characters, \<^verbatim>\<open>_\<close> matches any one character, and any other character matches
  itself, the ASCII letters without regard to case (\<open>like_match\<close>). The operator reads
  pattern and text as C strings, so each of them ends before its first NUL character
  (\<open>c_string\<close>, \<open>sql_like\<close>). It refuses a pattern of more than 50000 bytes; the bytes
  are those of UTF-8, one for a code point below 128 and two for the others modelled,
  and the characters after a NUL count.
\<close>

definition ascii_lower :: "char \<Rightarrow> char" where
  "ascii_lower c =
     (if 65 \<le> (of_char c :: nat) \<and> (of_char c :: nat) \<le> 90
      then char_of ((of_char c :: nat) + 32) else c)"

fun like_match :: "string \<Rightarrow> string \<Rightarrow> bool" where
  "like_match [] [] = True"
| "like_match [] (x # t) = False"
| "like_match (c # pat) [] = (c = CHR ''%'' \<and> like_match pat [])"
| "like_match (c # pat) (x # t) =
     (if c = CHR ''%'' then like_match pat (x # t) \<or> like_match (c # pat) t
      else (c = CHR ''_'' \<or> ascii_lower c = ascii_lower x) \<and> like_match pat t)"

definition c_string :: "string \<Rightarrow> string" where
  "c_string t = takeWhile (\<lambda>c. c \<noteq> CHR 0x00) t"

definition sql_like :: "string \<Rightarrow> string \<Rightarrow> bool" where
  "sql_like pat t = like_match (c_string pat) (c_string t)"

definition utf8_length :: "string \<Rightarrow> int" where
  "utf8_length t = sum_list (map (\<lambda>c. if (of_char c :: nat) < 128 then 1 else 2) t)"

definition pattern_too_complex :: "string \<Rightarrow> bool" where
  "pattern_too_complex pat \<longleftrightarrow> 50000 < utf8_length pat"

text \<open>
  \<^verbatim>\<open>search(area, status)\<close> builds its \<^verbatim>\<open>WHERE\<close> clause from the arguments:
  \<^verbatim>\<open>p.area LIKE '%area%'\<close> when \<^verbatim>\<open>area\<close> is not empty, \<^verbatim>\<open>d.id IS NULL\<close> when
  \<^verbatim>\<open>status\<close> is \<^verbatim>\<open>"Pending"\<close>, \<^verbatim>\<open>d.id IS NOT NULL\<close> when it is \<^verbatim>\<open>"Delivered"\<close>,
  nothing for any other status. \<open>search_join\<close> is the ordered list of joined rows the
  query selects from, \<open>search_rows\<close> the five columns of each. The \<^verbatim>\<open>LIKE\<close> term reads
  \<^verbatim>\<open>p.area\<close> only and is evaluated for every request that has its person row, before
  the deliveries are joined; with a pattern that is too long the first evaluation makes
  the statement fail, and \<open>search\<close> raises instead of returning rows.
\<close>

definition search_where :: "string \<Rightarrow> string \<Rightarrow> joined \<Rightarrow> bool" where
  "search_where area status = (\<lambda>(r, p, d).
     (area \<noteq> [] \<longrightarrow> sql_like (''%'' @ area @ ''%'') (p_area p)) \<and>
     (if status = ''Pending'' then d = None
      else if status = ''Delivered'' then d \<noteq> None
      else True))"

definition search_join :: "db \<Rightarrow> string \<Rightarrow> string \<Rightarrow> joined list" where
  "search_join s area status =
     order_by_desc request_of (filter (search_where area status) (left_join_delivered s))"

definition search_row :: "joined \<Rightarrow> string \<times> string \<times> string \<times> string \<times> string" where
  "search_row = (\<lambda>(r, p, d).
     (p_name p, p_area p, r_aid_type r, r_request_date r,
      case d of None \<Rightarrow> ''PENDING'' | Some dl \<Rightarrow> d_delivery_date dl))"

definition search_rows :: "db \<Rightarrow> string \<Rightarrow> string \<Rightarrow> (string \<times> string \<times> string \<times> string \<times> string) list" where
  "search_rows s area status = map search_row (search_join s area status)"

definition search :: "db \<Rightarrow> string \<Rightarrow> string \<Rightarrow> error + (string \<times> string \<times> string \<times> string \<times> string) list" where
  "search s area status =
     (if area \<noteq> [] \<and> pattern_too_complex (''%'' @ area @ ''%'') \<and> request_person s \<noteq> []
      then Inl OperationalError
      else Inr (search_rows s area status))"

subsection \<open>Deliveries by area\<close>

text \<open>
  \<^verbatim>\<open>SELECT p.area,COUNT(*) FROM aid_delivered d JOIN aid_requests r ON r.id=d.request_id
  JOIN people p ON p.id=r.person_id GROUP BY p.area ORDER BY COUNT(*) DESC\<close>:
  a joined row for every delivery, every request row of its \<^verbatim>\<open>request_id\<close> and every
  person row of that request's \<^verbatim>\<open>person_id\<close>; one group per area among the joined rows
  (areas compared exactly, the column has the default collation), with the number of
  joined rows of the group. SQL leaves the order
  of groups of equal count open; the model lists them in the order \<open>remdups\<close> gives.
  \<^verbatim>\<open>ReportsTab.refresh\<close> shows \<^verbatim>\<open>SELECT COUNT(*) FROM aid_delivered\<close> beside it.
\<close>

definition delivery_join_row :: "db \<Rightarrow> aid_delivery \<Rightarrow> (aid_delivery \<times> aid_request \<times> person) list" where
  "delivery_join_row s d =
     concat (map (\<lambda>r. map (\<lambda>p. (d, r, p)) (filter (\<lambda>p. p_id p = r_person_id r) (people s)))
                 (filter (\<lambda>r. r_id r = d_request_id d) (aid_requests s)))"

definition delivered_join :: "db \<Rightarrow> (aid_delivery \<times> aid_request \<times> person) list" where
  "delivered_join s = concat (map (delivery_join_row s) (aid_delivered s))"

definition delivered_areas :: "db \<Rightarrow> string list" where
  "delivered_areas s = map (\<lambda>(d, r, p). p_area p) (delivered_join s)"

definition delivered_summary_by_area :: "db \<Rightarrow> (string \<times> nat) list" where
  "delivered_summary_by_area s =
     order_by_desc (\<lambda>(a, c). int c)
       (map (\<lambda>a. (a, count_list (delivered_areas s) a)) (remdups (delivered_areas s)))"

definition count_deliveries :: "db \<Rightarrow> nat" where
  "count_deliveries s = length (aid_delivered s)"

subsection \<open>Export\<close>

text \<open>
  Modelled from the spec: \<^verbatim>\<open>export_to_csv(data, filename)\<close> is
  \<^verbatim>\<open>csv.writer(f).writerows(data)\<close> on a file opened with \<^verbatim>\<open>newline=''\<close>; the writer
  is Python's library and not code of the repository. The spec has the fields
  comma-separated with standard quoting for embedded separators and newlines. The model
  is the writer's default dialect on rows of text: a field that contains a comma, a
  double quote, a carriage return or a line feed is put between double quotes with
  every double quote in it doubled, any other field is written as it is; the fields of
  a row are joined by commas and the row ends with carriage return and line feed; a row
  whose only field is empty is written as two double quotes. \<open>export_to_csv\<close> is the
  text of the file.
\<close>

abbreviation COMMA :: char where "COMMA \<equiv> CHR '',''"
abbreviation DQUOTE :: char where "DQUOTE \<equiv> CHR 0x22"
abbreviation CR :: char where "CR \<equiv> CHR 0x0D"
abbreviation LF :: char where "LF \<equiv> CHR 0x0A"

definition special_char :: "char \<Rightarrow> bool" where
  "special_char c \<longleftrightarrow> c = COMMA \<or> c = DQUOTE \<or> c = CR \<or> c = LF"

definition needs_quotes :: "string \<Rightarrow> bool" where
  "needs_quotes f \<longleftrightarrow> list_ex special_char f"

definition double_quotes :: "string \<Rightarrow> string" where
  "double_quotes f = concat (map (\<lambda>c. if c = DQUOTE then [DQUOTE, DQUOTE] else [c]) f)"

definition write_field :: "string \<Rightarrow> string" where
  "write_field f = (if needs_quotes f then DQUOTE # double_quotes f @ [DQUOTE] else f)"

fun join_fields :: "string list \<Rightarrow> string" where
  "join_fields [] = []"
| "join_fields [f] = f"
| "join_fields (f # g # fs) = f @ COMMA # join_fields (g # fs)"

definition write_row :: "string list \<Rightarrow> string" where
  "write_row row =
     (if row = [[]] then [DQUOTE, DQUOTE] else join_fields (map write_field row)) @ [CR, LF]"

definition export_to_csv :: "string list list \<Rightarrow> string" where
  "export_to_csv data = concat (map write_row data)"

text \<open>
  Modelled from the spec: the standard delimited-text reader the file is read back
  with; the repository has none. It is the usual reader of such files, written as the
  state machine of Python's \<^verbatim>\<open>csv.reader\<close> (default dialect, on the file opened with
  \<^verbatim>\<open>newline=''\<close>, field size limit left out): a record ends at a line feed, a carriage
  return or the two together outside quotes; fields are separated by commas; a field
  that starts with a double quote runs to the closing double quote, a doubled double
  quote standing for one; a blank line is a row without fields. The arguments are the
  state, the field read so far and the fields of the row read so far.
\<close>

datatype reader_state =
  START_RECORD | START_FIELD | IN_FIELD | IN_QUOTED_FIELD | QUOTE_IN_QUOTED_FIELD

fun skip_lf :: "string \<Rightarrow> string" where
  "skip_lf [] = []"
| "skip_lf (c # cs) = (if c = LF then cs else c # cs)"

function (sequential) csv_reader ::
  "reader_state \<Rightarrow> string \<Rightarrow> string list \<Rightarrow> string \<Rightarrow> string list list" where
  "csv_reader START_RECORD fld row [] = []"
| "csv_reader st fld row [] = [row @ [fld]]"
| "csv_reader START_RECORD fld row (c # cs) =
     (if c = LF then [] # csv_reader START_RECORD [] [] cs
      else if c = CR then [] # csv_reader START_RECORD [] [] (skip_lf cs)
      else if c = DQUOTE then csv_reader IN_QUOTED_FIELD [] [] cs
      else if c = COMMA then csv_reader START_FIELD [] [[]] cs
      else csv_reader IN_FIELD [c] [] cs)"
| "csv_reader START_FIELD fld row (c # cs) =
     (if c = LF then (row @ [[]]) # csv_reader START_RECORD [] [] cs
      else if c = CR then (row @ [[]]) # csv_reader START_RECORD [] [] (skip_lf cs)
      else if c = DQUOTE then csv_reader IN_QUOTED_FIELD [] row cs
      else if c = COMMA then csv_reader START_FIELD [] (row @ [[]]) cs
      else csv_reader IN_FIELD [c] row cs)"
| "csv_reader IN_FIELD fld row (c # cs) =
     (if c = LF then (row @ [fld]) # csv_reader START_RECORD [] [] cs
      else if c = CR then (row @ [fld]) # csv_reader START_RECORD [] [] (skip_lf cs)
      else if c = COMMA then csv_reader START_FIELD [] (row @ [fld]) cs
      else csv_reader IN_FIELD (fld @ [c]) row cs)"
| "csv_reader IN_QUOTED_FIELD fld row (c # cs) =
     (if c = DQUOTE then csv_reader QUOTE_IN_QUOTED_FIELD fld row cs
      else csv_reader IN_QUOTED_FIELD (fld @ [c]) row cs)"
| "csv_reader QUOTE_IN_QUOTED_FIELD fld row (c # cs) =
     (if c = DQUOTE then csv_reader IN_QUOTED_FIELD (fld @ [DQUOTE]) row cs
      else if c = COMMA then csv_reader START_FIELD [] (row @ [fld]) cs
      else if c = LF then (row @ [fld]) # csv_reader START_RECORD [] [] cs
      else if c = CR then (row @ [fld]) # csv_reader START_RECORD [] [] (skip_lf cs)
      else csv_reader IN_FIELD (fld @ [c]) row cs)"
  by pat_completeness auto
termination
proof -
  have skip: "length (skip_lf cs) \<le> length cs" for cs
    by (cases cs) simp_all
  show ?thesis
    by (relation "measure (\<lambda>(st, fld, row, cs). length cs)")
       (auto simp: less_Suc_eq_le skip)
qed

definition read_csv :: "string \<Rightarrow> string list list" where
  "read_csv text = csv_reader START_RECORD [] [] text"

section \<open>Notions used in the statements\<close>

text \<open>The row an insert into \<^verbatim>\<open>people\<close> adds, and the names in the catalogue.\<close>

definition new_person :: "db \<Rightarrow> string \<Rightarrow> string \<Rightarrow> int option \<Rightarrow> person" where
  "new_person s name area a =
     \<lparr>p_id = next_id (map p_id (people s)), p_name = name, p_area = area, p_age = a\<rparr>"

definition type_names :: "db \<Rightarrow> string list" where
  "type_names s = map t_aid_name (aid_types s)"

text \<open>
  What the store guarantees and what the data model asks of a state. The three
  \<^verbatim>\<open>id\<close> columns are primary keys, which SQLite enforces: no id occurs twice in its
  table. The two foreign keys are declared but not enforced (see \<open>add_request\<close>), so
  that every request has its person, and every delivery its request, is a condition
  on a state and not a property of all states.
\<close>

definition unique_ids :: "db \<Rightarrow> bool" where
  "unique_ids s \<longleftrightarrow>
     distinct (map p_id (people s)) \<and> distinct (map r_id (aid_requests s)) \<and>
     distinct (map d_id (aid_delivered s))"

definition requests_have_person :: "db \<Rightarrow> bool" where
  "requests_have_person s \<longleftrightarrow>
     (\<forall>r\<in>set (aid_requests s). r_person_id r \<in> set (map p_id (people s)))"

definition deliveries_have_request :: "db \<Rightarrow> bool" where
  "deliveries_have_request s \<longleftrightarrow>
     (\<forall>d\<in>set (aid_delivered s). d_request_id d \<in> set (map r_id (aid_requests s)))"

text \<open>A request no delivery row refers to.\<close>

definition no_delivery :: "db \<Rightarrow> aid_request \<Rightarrow> bool" where
  "no_delivery s r \<longleftrightarrow> (\<forall>d\<in>set (aid_delivered s). d_request_id d \<noteq> r_id r)"

text \<open>
  A delivery counts for an area when its request's person has that area. No delivery
  carries the text \<^verbatim>\<open>PENDING\<close>, which \<open>search\<close> uses for undelivered requests, as its
  date. An area filter without the two wildcards of \<^verbatim>\<open>LIKE\<close>; a plain filter has,
  besides, no NUL character and gives a pattern \<^verbatim>\<open>LIKE\<close> accepts.
\<close>

definition delivered_in_area :: "db \<Rightarrow> string \<Rightarrow> aid_delivery \<Rightarrow> bool" where
  "delivered_in_area s a d \<longleftrightarrow>
     (\<exists>r\<in>set (aid_requests s). \<exists>p\<in>set (people s).
        r_id r = d_request_id d \<and> p_id p = r_person_id r \<and> p_area p = a)"

definition no_sentinel_date :: "db \<Rightarrow> bool" where
  "no_sentinel_date s \<longleftrightarrow> (\<forall>d\<in>set (aid_delivered s). d_delivery_date d \<noteq> ''PENDING'')"

definition wildcard_free :: "string \<Rightarrow> bool" where
  "wildcard_free a \<longleftrightarrow> CHR ''%'' \<notin> set a \<and> CHR ''_'' \<notin> set a"

definition plain_filter :: "string \<Rightarrow> bool" where
  "plain_filter a \<longleftrightarrow>
     wildcard_free a \<and> CHR 0x00 \<notin> set a \<and> \<not> pattern_too_complex (''%'' @ a @ ''%'')"

subsection \<open>Example stores\<close>

text \<open>
  \<open>run\<close> performs mutations one after the other and stops at the first that raises.
  The example stores are those the listed calls leave behind on a new, initialised
  store; each is shown to be reached where it is used.
\<close>

fun run :: "(db \<Rightarrow> error + db) list \<Rightarrow> db \<Rightarrow> error + db" where
  "run [] s = Inr s"
| "run (f # fs) s = (case f s of Inl e \<Rightarrow> Inl e | Inr s' \<Rightarrow> run fs s')"

definition asha :: person where
  "asha = \<lparr>p_id = 1, p_name = ''Asha'', p_area = ''North'', p_age = Some 34\<rparr>"

definition food_request :: "int \<Rightarrow> int \<Rightarrow> aid_request" where
  "food_request i pid =
     \<lparr>r_id = i, r_person_id = pid, r_aid_type = ''Food'', r_request_date = ''2024-01-10''\<rparr>"

definition rice_delivery :: "int \<Rightarrow> int \<Rightarrow> string \<Rightarrow> aid_delivery" where
  "rice_delivery i rid day =
     \<lparr>d_id = i, d_request_id = rid, d_item_given = ''Rice 5kg'', d_delivery_date = day\<rparr>"

definition requested_db :: db where
  "requested_db = (init_db empty_db)\<lparr>people := [asha], aid_requests := [food_request 1 1]\<rparr>"

definition twice_delivered_db :: db where
  "twice_delivered_db = requested_db\<lparr>aid_delivered :=
     [rice_delivery 1 1 ''2024-01-12'', rice_delivery 2 1 ''2024-01-13'']\<rparr>"

definition sentinel_db :: db where
  "sentinel_db = (init_db empty_db)\<lparr>people := [asha],
     aid_requests := [food_request 1 1, food_request 2 1],
     aid_delivered := [rice_delivery 1 1 ''PENDING'']\<rparr>"

definition dangling_request_db :: db where
  "dangling_request_db = (init_db empty_db)\<lparr>aid_requests := [food_request 1 999]\<rparr>"

definition dangling_delivery_db :: db where
  "dangling_delivery_db =
     (init_db empty_db)\<lparr>aid_delivered := [rice_delivery 1 999 ''2024-01-12'']\<rparr>"

definition mixed_db :: db where
  "mixed_db = (init_db empty_db)\<lparr>people := [asha],
     aid_requests := [food_request 1 1,
       \<lparr>r_id = 2, r_person_id = 1, r_aid_type = ''Water'', r_request_date = ''2024-01-11''\<rparr>],
     aid_delivered := [rice_delivery 1 1 ''2024-01-12'']\<rparr>"

definition nul_area_db :: db where
  "nul_area_db = (init_db empty_db)\<lparr>
     people := [\<lparr>p_id = 1, p_name = ''Asha'', p_area = [CHR ''x'', CHR 0x00, CHR ''a''],
                 p_age = None\<rparr>],
     aid_requests := [food_request 1 1]\<rparr>"

section \<open>Verified properties\<close>

subsection \<open>Fresh ids and ordering\<close>

lemma fold_max_ge: "(a::int) \<le> fold max ids a"
  by (induction ids arbitrary: a) (auto intro: order_trans [OF max.cobounded2])

lemma fold_max_mem: "(x::int) \<in> set ids \<Longrightarrow> x \<le> fold max ids a"
proof (induction ids arbitrary: a)
  case Nil
  then show ?case by simp
next
  case (Cons y ys)
  show ?case
  proof (cases "x = y")
    case True
    have "x \<le> max y a" using True by simp
    also have "\<dots> \<le> fold max ys (max y a)" by (rule fold_max_ge)
    finally show ?thesis by simp
  next
    case False
    with Cons show ?thesis by simp
  qed
qed

lemma next_id_greater: "x \<in> set ids \<Longrightarrow> x < next_id ids"
  using fold_max_mem [of x ids 0] by (simp add: next_id_def)

lemma next_id_fresh: "next_id ids \<notin> set ids"
  using next_id_greater [of "next_id ids" ids] by auto

lemma foldr_insort_least:
  "\<forall>y\<in>set xs. f x < f y \<Longrightarrow> foldr (insort_key f) xs [x] = x # foldr (insort_key f) xs []"
  by (induction xs) (auto simp: not_le [symmetric])

lemma sort_key_snoc_least:
  "\<forall>y\<in>set xs. f x < f y \<Longrightarrow> sort_key f (xs @ [x]) = x # sort_key f xs"
  by (simp add: sort_key_def foldr_insort_least)

lemma order_by_desc_snoc_greatest:
  "\<forall>y\<in>set xs. k y < k x \<Longrightarrow> order_by_desc k (xs @ [x]) = x # order_by_desc k xs"
  by (simp add: order_by_desc_def sort_key_snoc_least)

subsection \<open>Registering a person\<close>

lemma add_person_inserts:
  assumes "case age of None \<Rightarrow> True | Some n \<Rightarrow> fits_int64 n"
  shows "add_person name area age s =
           Inr (s\<lparr>people := people s @ [new_person s name area (age_or_none age)]\<rparr>)"
  using assms
  by (auto simp: add_person_def new_person_def age_or_none_def split: option.splits)

lemma list_people_snoc:
  "list_people (s\<lparr>people := people s @ [new_person s name area a]\<rparr>) =
     (next_id (map p_id (people s)), name, area, coalesce_age a) # list_people s"
proof -
  have "\<forall>y\<in>set (people s). p_id y < p_id (new_person s name area a)"
    by (simp add: new_person_def next_id_greater)
  then show ?thesis
    by (simp add: list_people_def order_by_desc_snoc_greatest new_person_def)
qed

text \<open>
  Claim C10. \<^verbatim>\<open>add_person\<close> called with age \<open>0\<close> stores the row with a NULL age, not
  \<open>0\<close>, exactly as it does when the age is omitted, and \<^verbatim>\<open>list_people\<close> then shows
  that person, first in the list, with the empty text as age.
\<close>

theorem add_person_zero_age_is_null:
  "add_person name area (Some 0) s =
     Inr (s\<lparr>people := people s @ [new_person s name area None]\<rparr>) \<and>
   add_person name area (Some 0) s = add_person name area None s \<and>
   list_people (s\<lparr>people := people s @ [new_person s name area None]\<rparr>) =
     (next_id (map p_id (people s)), name, area, SqlText []) # list_people s"
  by (simp add: add_person_def age_or_none_def new_person_def [symmetric] list_people_snoc
      coalesce_age_def)

text \<open>
  \<^verbatim>\<open>add_person\<close> checks nothing. On a new store it inserts a person whose name and
  area are empty, and a person of age \<open>-5\<close>; neither call fails.
\<close>

theorem add_person_unvalidated_counterexample:
  "add_person [] [] None empty_db =
     Inr \<lparr>people = [\<lparr>p_id = 1, p_name = [], p_area = [], p_age = None\<rparr>],
          aid_types = [], aid_requests = [], aid_delivered = []\<rparr> \<and>
   add_person ''Asha'' ''North'' (Some (- 5)) empty_db =
     Inr \<lparr>people = [\<lparr>p_id = 1, p_name = ''Asha'', p_area = ''North'', p_age = Some (- 5)\<rparr>],
          aid_types = [], aid_requests = [], aid_delivered = []\<rparr>"
  by (simp add: add_person_def age_or_none_def empty_db_def next_id_def fits_int64_def)

text \<open>
  Claim C1, as the code has it. The checks are in the caller \<^verbatim>\<open>PeopleTab.on_add\<close>:
  when the name or the area is empty, or the age text is not empty and not all digits,
  it shows an error dialog and returns with the store unchanged; it raises nothing.
  \<^verbatim>\<open>add_person\<close> itself inserts exactly one new row, with a fresh id and the name and
  area it was given, for every name and area and every age that is absent or fits 64
  bits.
\<close>

theorem register_person_validation:
  "(name = [] \<or> area = [] \<or> (age_text \<noteq> [] \<and> \<not> isdigit age_text) \<longrightarrow>
      (\<exists>msg. on_add name area age_text s = (ShowError ''Error'' msg, s))) \<and>
   ((case age of None \<Rightarrow> True | Some n \<Rightarrow> fits_int64 n) \<longrightarrow>
      (\<exists>row. add_person name area age s = Inr (s\<lparr>people := people s @ [row]\<rparr>) \<and>
             p_name row = name \<and> p_area row = area \<and> p_age row = age_or_none age \<and>
             p_id row \<notin> set (map p_id (people s))))"
proof (intro conjI impI)
  assume "name = [] \<or> area = [] \<or> (age_text \<noteq> [] \<and> \<not> isdigit age_text)"
  then show "\<exists>msg. on_add name area age_text s = (ShowError ''Error'' msg, s)"
    by (auto simp: on_add_def)
next
  assume a: "case age of None \<Rightarrow> True | Some n \<Rightarrow> fits_int64 n"
  have "p_id (new_person s name area (age_or_none age)) \<notin> set (map p_id (people s))"
    unfolding new_person_def using next_id_fresh [of "map p_id (people s)"] by simp
  then show "\<exists>row. add_person name area age s = Inr (s\<lparr>people := people s @ [row]\<rparr>) \<and>
             p_name row = name \<and> p_area row = area \<and> p_age row = age_or_none age \<and>
             p_id row \<notin> set (map p_id (people s))"
    using add_person_inserts [OF a, of name area s]
    by (intro exI [of _ "new_person s name area (age_or_none age)"]) (simp add: new_person_def)
qed

theorem register_person_validation_witness:
  "([] = [] \<or> ''North'' = [] \<or> (''x'' \<noteq> [] \<and> \<not> isdigit ''x'')) \<and>
   (\<exists>msg. on_add [] ''North'' ''x'' empty_db = (ShowError ''Error'' msg, empty_db)) \<and>
   (case Some 34 of None \<Rightarrow> True | Some n \<Rightarrow> fits_int64 n) \<and>
   (\<exists>row. add_person [] ''North'' (Some 34) empty_db =
             Inr (empty_db\<lparr>people := people empty_db @ [row]\<rparr>) \<and>
          p_name row = [] \<and> p_area row = ''North'' \<and> p_age row = age_or_none (Some 34) \<and>
          p_id row \<notin> set (map p_id (people empty_db)))"
proof -
  have h1: "[] = [] \<or> ''North'' = [] \<or> (''x'' \<noteq> [] \<and> \<not> isdigit ''x'')" by simp
  have h2: "case Some 34 of None \<Rightarrow> True | Some n \<Rightarrow> fits_int64 n"
    by (simp add: fits_int64_def)
  show ?thesis
    using h1 h2 register_person_validation [of "[]" "''North''" "''x''" empty_db "Some 34"]
    by blast
qed

subsection \<open>Requests and deliveries with a dangling reference\<close>

text \<open>
  Claim C2 at a failing input. On a store that was initialised and holds no person and
  no request, \<^verbatim>\<open>add_request(999, "Food", "2024-01-10")\<close> and
  \<^verbatim>\<open>mark_delivered(999, "Rice 5kg", "2024-01-12")\<close> both succeed and insert their row,
  although the schema declares the two foreign keys.
\<close>

theorem unchecked_references_inserted:
  "add_request 999 ''Food'' ''2024-01-10'' (init_db empty_db) =
     Inr ((init_db empty_db)\<lparr>aid_requests :=
            [\<lparr>r_id = 1, r_person_id = 999, r_aid_type = ''Food'',
              r_request_date = ''2024-01-10''\<rparr>]\<rparr>) \<and>
   people (init_db empty_db) = [] \<and>
   mark_delivered 999 ''Rice 5kg'' ''2024-01-12'' (init_db empty_db) =
     Inr ((init_db empty_db)\<lparr>aid_delivered :=
            [\<lparr>d_id = 1, d_request_id = 999, d_item_given = ''Rice 5kg'',
              d_delivery_date = ''2024-01-12''\<rparr>]\<rparr>) \<and>
   aid_requests (init_db empty_db) = []"
  by (simp add: add_request_def mark_delivered_def init_db_def seed_names_def
      insert_or_ignore_aid_type_def empty_db_def next_id_def fits_int64_def)

subsection \<open>Initialisation is idempotent\<close>

lemma insert_or_ignore_present:
  "nm \<in> set (type_names s) \<Longrightarrow> insert_or_ignore_aid_type nm s = s"
  by (simp add: insert_or_ignore_aid_type_def type_names_def)

lemma type_names_insert:
  "set (type_names (insert_or_ignore_aid_type nm s)) = insert nm (set (type_names s))"
  by (auto simp: insert_or_ignore_aid_type_def type_names_def)

lemma distinct_insert:
  "distinct (type_names s) \<Longrightarrow> distinct (type_names (insert_or_ignore_aid_type nm s))"
  by (auto simp: insert_or_ignore_aid_type_def type_names_def)

lemma type_names_fold:
  "set (type_names (fold insert_or_ignore_aid_type ns s)) = set ns \<union> set (type_names s)"
  by (induction ns arbitrary: s) (auto simp: type_names_insert)

lemma distinct_fold:
  "distinct (type_names s) \<Longrightarrow> distinct (type_names (fold insert_or_ignore_aid_type ns s))"
  by (induction ns arbitrary: s) (auto simp: distinct_insert)

lemma fold_present:
  "set ns \<subseteq> set (type_names s) \<Longrightarrow> fold insert_or_ignore_aid_type ns s = s"
  by (induction ns arbitrary: s) (auto simp: insert_or_ignore_present)

lemma other_tables_insert:
  "people (insert_or_ignore_aid_type nm s) = people s \<and>
   aid_requests (insert_or_ignore_aid_type nm s) = aid_requests s \<and>
   aid_delivered (insert_or_ignore_aid_type nm s) = aid_delivered s"
  by (simp add: insert_or_ignore_aid_type_def)

lemma other_tables_fold:
  "people (fold insert_or_ignore_aid_type ns s) = people s \<and>
   aid_requests (fold insert_or_ignore_aid_type ns s) = aid_requests s \<and>
   aid_delivered (fold insert_or_ignore_aid_type ns s) = aid_delivered s"
  by (induction ns arbitrary: s) (auto simp: other_tables_insert)

lemma init_db_again: "init_db (init_db s) = init_db s"
  unfolding init_db_def by (rule fold_present) (simp add: type_names_fold)

lemma init_db_repeat: "(init_db ^^ n) (init_db s) = init_db s"
  by (induction n) (simp_all add: init_db_again)

lemma count_list_distinct: "distinct xs \<Longrightarrow> x \<in> set xs \<Longrightarrow> count_list xs x = 1"
  by (induction xs) (auto simp: count_list_0_iff)

text \<open>
  Claim C9. On a new store \<^verbatim>\<open>init_db\<close> leaves the five seed rows in the catalogue.
  On every store whose catalogue names are distinct (the column is \<^verbatim>\<open>UNIQUE\<close>), each
  seed name is in the catalogue exactly once after one call. After one call, any number
  of further calls leaves the whole store as it is, and no call changes another table.
\<close>

theorem init_db_idempotent:
  "aid_types (init_db empty_db) =
     [\<lparr>t_id = 1, t_aid_name = ''Food''\<rparr>, \<lparr>t_id = 2, t_aid_name = ''Medicine''\<rparr>,
      \<lparr>t_id = 3, t_aid_name = ''Shelter''\<rparr>, \<lparr>t_id = 4, t_aid_name = ''Clothing''\<rparr>,
      \<lparr>t_id = 5, t_aid_name = ''Water''\<rparr>] \<and>
   (distinct (type_names s) \<longrightarrow>
      (\<forall>nm\<in>set seed_names. count_list (type_names (init_db s)) nm = 1)) \<and>
   (\<forall>n. (init_db ^^ n) (init_db s) = init_db s) \<and>
   people (init_db s) = people s \<and> aid_requests (init_db s) = aid_requests s \<and>
   aid_delivered (init_db s) = aid_delivered s"
proof (intro conjI impI ballI allI)
  show "aid_types (init_db empty_db) =
     [\<lparr>t_id = 1, t_aid_name = ''Food''\<rparr>, \<lparr>t_id = 2, t_aid_name = ''Medicine''\<rparr>,
      \<lparr>t_id = 3, t_aid_name = ''Shelter''\<rparr>, \<lparr>t_id = 4, t_aid_name = ''Clothing''\<rparr>,
      \<lparr>t_id = 5, t_aid_name = ''Water''\<rparr>]"
    by (simp add: init_db_def seed_names_def insert_or_ignore_aid_type_def empty_db_def
        next_id_def)
next
  fix nm assume "distinct (type_names s)" "nm \<in> set seed_names"
  then show "count_list (type_names (init_db s)) nm = 1"
    by (intro count_list_distinct) (simp_all add: init_db_def distinct_fold type_names_fold)
next
  fix n show "(init_db ^^ n) (init_db s) = init_db s" by (rule init_db_repeat)
qed (simp_all add: init_db_def other_tables_fold)

theorem init_db_idempotent_witness:
  "distinct (type_names empty_db) \<and>
   count_list (type_names (init_db empty_db)) ''Water'' = 1 \<and>
   (init_db ^^ 3) (init_db empty_db) = init_db empty_db"
proof -
  have h: "distinct (type_names empty_db)" by (simp add: type_names_def empty_db_def)
  have w: "''Water'' \<in> set seed_names" by (simp add: seed_names_def)
  show ?thesis using h w init_db_idempotent [of empty_db] by blast
qed

subsection \<open>What the mutations preserve\<close>

text \<open>
  Ids stay unique under every mutation, from the empty store on. References stay
  resolved when \<^verbatim>\<open>add_request\<close> is given the id of a stored person and
  \<^verbatim>\<open>mark_delivered\<close> the id of a stored request, which is what the forms of the
  program pass: their read-only selection boxes are filled from \<^verbatim>\<open>list_people\<close> and
  \<^verbatim>\<open>list_pending_requests\<close>.
\<close>

lemma unique_ids_empty_db: "unique_ids empty_db"
  by (simp add: unique_ids_def empty_db_def)

lemma unique_ids_init_db: "unique_ids s \<Longrightarrow> unique_ids (init_db s)"
  by (simp add: unique_ids_def init_db_def other_tables_fold)

lemma unique_ids_add_person:
  "unique_ids s \<Longrightarrow> add_person name area age s = Inr s' \<Longrightarrow> unique_ids s'"
  using next_id_fresh [of "map p_id (people s)"]
  by (auto simp: unique_ids_def add_person_def split: option.splits if_splits)

lemma unique_ids_add_request:
  "unique_ids s \<Longrightarrow> add_request pid aid_type req_date s = Inr s' \<Longrightarrow> unique_ids s'"
  using next_id_fresh [of "map r_id (aid_requests s)"]
  by (auto simp: unique_ids_def add_request_def split: if_splits)

lemma unique_ids_mark_delivered:
  "unique_ids s \<Longrightarrow> mark_delivered rid item d_date s = Inr s' \<Longrightarrow> unique_ids s'"
  using next_id_fresh [of "map d_id (aid_delivered s)"]
  by (auto simp: unique_ids_def mark_delivered_def split: if_splits)

lemma references_add_person:
  "requests_have_person s \<Longrightarrow> deliveries_have_request s \<Longrightarrow>
     add_person name area age s = Inr s' \<Longrightarrow>
     requests_have_person s' \<and> deliveries_have_request s'"
  by (auto simp: requests_have_person_def deliveries_have_request_def add_person_def
      split: option.splits if_splits)

lemma references_add_request:
  "requests_have_person s \<Longrightarrow> deliveries_have_request s \<Longrightarrow>
     pid \<in> set (map p_id (people s)) \<Longrightarrow>
     add_request pid aid_type req_date s = Inr s' \<Longrightarrow>
     requests_have_person s' \<and> deliveries_have_request s'"
  by (auto simp: requests_have_person_def deliveries_have_request_def add_request_def
      split: if_splits)

lemma references_mark_delivered:
  "requests_have_person s \<Longrightarrow> deliveries_have_request s \<Longrightarrow>
     rid \<in> set (map r_id (aid_requests s)) \<Longrightarrow>
     mark_delivered rid item d_date s = Inr s' \<Longrightarrow>
     requests_have_person s' \<and> deliveries_have_request s'"
  by (auto simp: requests_have_person_def deliveries_have_request_def mark_delivered_def
      split: if_splits)

subsection \<open>Ordering and the join\<close>

lemma set_order_by_desc: "set (order_by_desc k xs) = set xs"
  by (simp add: order_by_desc_def)

lemma mset_order_by_desc: "mset (order_by_desc k xs) = mset xs"
  by (simp add: order_by_desc_def)

lemma length_order_by_desc: "length (order_by_desc k xs) = length xs"
  by (simp add: order_by_desc_def)

lemma filter_order_by_desc: "filter P (order_by_desc k xs) = order_by_desc k (filter P xs)"
  by (simp add: order_by_desc_def filter_sort)

lemma descending_order_by_desc: "descending (map k (order_by_desc k xs))"
proof -
  have "sorted (map (\<lambda>x. - k x) (sort_key (\<lambda>x. - k x) xs))"
    by (rule sorted_sort_key)
  then show ?thesis
    by (simp add: order_by_desc_def sorted_wrt_map)
qed

lemma distinct_map_order_by_desc:
  "distinct (map f (order_by_desc k xs)) \<longleftrightarrow> distinct (map f xs)"
proof -
  have "mset (map f (order_by_desc k xs)) = mset (map f xs)"
    by (simp add: mset_order_by_desc)
  then show ?thesis by (rule mset_eq_imp_distinct_iff)
qed

lemma mset_map_order_by_desc: "mset (map f (order_by_desc k xs)) = mset (map f xs)"
  by (simp only: mset_map mset_order_by_desc)

lemma sum_list_map_order_by_desc:
  "sum_list (map f (order_by_desc k xs)) = (sum_list (map f xs) :: nat)"
proof -
  have "mset (map f (order_by_desc k xs)) = mset (map f xs)"
    by (simp add: mset_order_by_desc)
  then show ?thesis by (metis sum_mset_sum_list)
qed

lemma set_request_person:
  "(r, p) \<in> set (request_person s) \<longleftrightarrow>
     r \<in> set (aid_requests s) \<and> p \<in> set (people s) \<and> p_id p = r_person_id r"
  by (auto simp: request_person_def)

lemma set_left_join_row:
  "j \<in> set (left_join_row s (r, p)) \<longleftrightarrow>
     (\<exists>d. j = (r, p, d) \<and>
        (case d of None \<Rightarrow> deliveries_of s r = [] | Some dl \<Rightarrow> dl \<in> set (deliveries_of s r)))"
proof (cases "deliveries_of s r")
  case Nil
  then show ?thesis by (auto simp: left_join_row_def split: option.splits)
next
  case (Cons a ds)
  then show ?thesis
    by (cases j) (auto simp: left_join_row_def split: option.splits)
qed

lemma set_left_join_delivered:
  "(r, p, d) \<in> set (left_join_delivered s) \<longleftrightarrow>
     r \<in> set (aid_requests s) \<and> p \<in> set (people s) \<and> p_id p = r_person_id r \<and>
     (case d of None \<Rightarrow> deliveries_of s r = [] | Some dl \<Rightarrow> dl \<in> set (deliveries_of s r))"
proof -
  have "(r, p, d) \<in> set (left_join_delivered s) \<longleftrightarrow>
          (\<exists>rp\<in>set (request_person s). (r, p, d) \<in> set (left_join_row s rp))"
    by (simp add: left_join_delivered_def)
  also have "\<dots> \<longleftrightarrow> (r, p) \<in> set (request_person s) \<and>
      (case d of None \<Rightarrow> deliveries_of s r = [] | Some dl \<Rightarrow> dl \<in> set (deliveries_of s r))"
  proof
    assume "\<exists>rp\<in>set (request_person s). (r, p, d) \<in> set (left_join_row s rp)"
    then obtain r' p' where "(r', p') \<in> set (request_person s)"
      and "(r, p, d) \<in> set (left_join_row s (r', p'))" by auto
    then show "(r, p) \<in> set (request_person s) \<and>
      (case d of None \<Rightarrow> deliveries_of s r = [] | Some dl \<Rightarrow> dl \<in> set (deliveries_of s r))"
      by (auto simp: set_left_join_row)
  next
    assume a: "(r, p) \<in> set (request_person s) \<and>
      (case d of None \<Rightarrow> deliveries_of s r = [] | Some dl \<Rightarrow> dl \<in> set (deliveries_of s r))"
    then have "(r, p, d) \<in> set (left_join_row s (r, p))"
      by (simp add: set_left_join_row)
    with a show "\<exists>rp\<in>set (request_person s). (r, p, d) \<in> set (left_join_row s rp)"
      by blast
  qed
  finally show ?thesis by (simp add: set_request_person)
qed

lemma deliveries_of_empty: "deliveries_of s r = [] \<longleftrightarrow> no_delivery s r"
  by (auto simp: deliveries_of_def no_delivery_def filter_empty_conv)

lemma deliveries_of_mem:
  "dl \<in> set (deliveries_of s r) \<longleftrightarrow> dl \<in> set (aid_delivered s) \<and> d_request_id dl = r_id r"
  by (auto simp: deliveries_of_def)

lemma same_key:
  "distinct (map f xs) \<Longrightarrow> x \<in> set xs \<Longrightarrow> y \<in> set xs \<Longrightarrow> f x = f y \<Longrightarrow> x = y"
  by (simp add: distinct_map inj_on_def)

lemma filter_key_le_one:
  "distinct (map f xs) \<Longrightarrow> length (filter (\<lambda>x. f x = k) xs) \<le> 1"
proof (induction xs)
  case Nil
  then show ?case by simp
next
  case (Cons a xs)
  show ?case
  proof (cases "f a = k")
    case True
    have "filter (\<lambda>x. f x = k) xs = []"
      using Cons.prems True by (auto simp: filter_empty_conv image_iff)
    with True show ?thesis by simp
  next
    case False
    with Cons show ?thesis by simp
  qed
qed

lemma filter_key_single:
  "distinct (map f xs) \<Longrightarrow> x \<in> set xs \<Longrightarrow> filter (\<lambda>y. f y = f x) xs = [x]"
proof (induction xs)
  case Nil
  then show ?case by simp
next
  case (Cons a xs)
  show ?case
  proof (cases "x = a")
    case True
    have "filter (\<lambda>y. f y = f a) xs = []"
      using Cons.prems(1) by (auto simp: filter_empty_conv image_iff)
    with True show ?thesis by simp
  next
    case False
    with Cons.prems have "x \<in> set xs" "f a \<noteq> f x" by (auto simp: image_iff)
    with Cons show ?thesis by simp
  qed
qed

lemma filter_key_cases:
  assumes "distinct (map f xs)"
  shows "(filter (\<lambda>x. f x = k) xs = [] \<and> k \<notin> f ` set xs) \<or>
         (\<exists>x\<in>set xs. f x = k \<and> filter (\<lambda>x. f x = k) xs = [x])"
proof (cases "k \<in> f ` set xs")
  case True
  then obtain x where "x \<in> set xs" "f x = k" by auto
  then show ?thesis using filter_key_single [OF assms, of x] by auto
next
  case False
  then have "filter (\<lambda>x. f x = k) xs = []" by (auto simp: filter_empty_conv)
  with False show ?thesis by simp
qed

lemma request_ids_of_request_person:
  "map (\<lambda>(r, p). r_id r) (request_person s) =
     concat (map (\<lambda>r. replicate (length (filter (\<lambda>p. p_id p = r_person_id r) (people s))) (r_id r))
                 (aid_requests s))"
  unfolding request_person_def
  by (induction "aid_requests s" arbitrary: s) (simp_all add: map_concat comp_def map_replicate_const)

lemma distinct_concat_keyed:
  assumes "distinct (map g xs)"
    and "\<And>x. x \<in> set xs \<Longrightarrow> distinct (f x)"
    and "\<And>x j. x \<in> set xs \<Longrightarrow> j \<in> set (f x) \<Longrightarrow> h j = g x"
  shows "distinct (concat (map f xs))"
  using assms
proof (induction xs)
  case Nil
  then show ?case by simp
next
  case (Cons a xs)
  have "set (f a) \<inter> set (concat (map f xs)) = {}"
  proof (rule ccontr)
    assume "set (f a) \<inter> set (concat (map f xs)) \<noteq> {}"
    then obtain j x where j: "j \<in> set (f a)" "x \<in> set xs" "j \<in> set (f x)" by auto
    then have "g a = g x" using Cons.prems(3) [of a j] Cons.prems(3) [of x j] by simp
    with Cons.prems(1) j(2) show False by (auto simp: image_iff)
  qed
  moreover have "distinct (concat (map f xs))"
    using Cons by simp
  moreover have "distinct (f a)" using Cons.prems(2) by simp
  ultimately show ?case by simp
qed

lemma distinct_request_person_ids:
  assumes "unique_ids s"
  shows "distinct (map (\<lambda>(r, p). r_id r) (request_person s))"
proof -
  have p: "length (filter (\<lambda>p. p_id p = k) (people s)) \<le> 1" for k
    using assms filter_key_le_one [of p_id "people s" k] by (simp add: unique_ids_def)
  have main: "distinct (map r_id rs) \<Longrightarrow>
        distinct (concat (map (\<lambda>r. replicate (length (filter (\<lambda>p. p_id p = r_person_id r) (people s))) (r_id r)) rs))"
    for rs
  proof (induction rs)
    case Nil
    then show ?case by simp
  next
    case (Cons r rs)
    let ?n = "length (filter (\<lambda>p. p_id p = r_person_id r) (people s))"
    have "?n = 0 \<or> ?n = 1" using p [of "r_person_id r"] by linarith
    then have "distinct (replicate ?n (r_id r))" by auto
    moreover have "r_id r \<notin> set (concat (map (\<lambda>r. replicate (length (filter (\<lambda>p. p_id p = r_person_id r) (people s))) (r_id r)) rs))"
      using Cons.prems by (auto simp: image_iff)
    ultimately show ?case using Cons by (auto simp: set_replicate_conv_if)
  qed
  have "distinct (map r_id (aid_requests s))" using assms by (simp add: unique_ids_def)
  from main [OF this] show ?thesis
    by (simp only: request_ids_of_request_person)
qed

lemma request_of_left_join_row:
  "j \<in> set (left_join_row s (r, p)) \<Longrightarrow> request_of j = r_id r"
  by (auto simp: set_left_join_row request_of_def)

lemma distinct_left_join_row:
  assumes "unique_ids s"
  shows "distinct (left_join_row s rp)"
proof -
  have "distinct (aid_delivered s)"
    using assms by (simp add: unique_ids_def distinct_map)
  then have d: "distinct (deliveries_of s r)" for r by (simp add: deliveries_of_def)
  obtain r p where rp: "rp = (r, p)" by (cases rp)
  show ?thesis
  proof (cases "deliveries_of s r")
    case Nil
    then show ?thesis by (simp add: rp left_join_row_def)
  next
    case (Cons a ds)
    have "distinct (map (\<lambda>d. (r, p, Some d)) (deliveries_of s r))"
      using d [of r] by (simp add: distinct_map inj_on_def)
    then show ?thesis using Cons by (simp add: rp left_join_row_def)
  qed
qed

lemma distinct_left_join_delivered:
  assumes "unique_ids s"
  shows "distinct (left_join_delivered s)"
  unfolding left_join_delivered_def
proof (rule distinct_concat_keyed [where g = "\<lambda>(r, p). r_id r" and h = request_of])
  show "distinct (map (\<lambda>(r, p). r_id r) (request_person s))"
    using assms by (rule distinct_request_person_ids)
next
  fix rp show "distinct (left_join_row s rp)" using assms by (rule distinct_left_join_row)
next
  fix rp j assume "j \<in> set (left_join_row s rp)"
  then show "request_of j = (case rp of (r, p) \<Rightarrow> r_id r)"
    by (cases rp) (simp add: request_of_left_join_row)
qed

lemma filter_request_left_join_row:
  "filter (\<lambda>j. request_of j = i) (left_join_row s (r, p)) =
     (if r_id r = i then left_join_row s (r, p) else [])"
  using request_of_left_join_row [of _ s r p]
  by (auto simp: filter_empty_conv intro!: filter_True)

lemma filter_request_left_join:
  "filter (\<lambda>j. request_of j = i) (left_join_delivered s) =
     concat (map (left_join_row s) (filter (\<lambda>(r, p). r_id r = i) (request_person s)))"
proof -
  have "filter (\<lambda>j. request_of j = i) (concat (map (left_join_row s) xs)) =
          concat (map (left_join_row s) (filter (\<lambda>(r, p). r_id r = i) xs))" for xs
    by (induction xs) (auto simp: filter_request_left_join_row)
  then show ?thesis by (simp add: left_join_delivered_def)
qed

subsection \<open>Pending requests\<close>

lemma pending_ids:
  "map fst (list_pending_requests s) =
     map request_of (order_by_desc request_of (filter (\<lambda>(r, p, d). d = None) (left_join_delivered s)))"
  by (simp add: list_pending_requests_def pending_row_def request_of_def comp_def case_prod_unfold)

lemma request_of_pending_rows:
  "map request_of (filter (\<lambda>(r, p, d). d = None) (concat (map (left_join_row s) xs))) =
     map (\<lambda>(r, p). r_id r) (filter (\<lambda>(r, p). deliveries_of s r = []) xs)"
  by (induction xs) (auto simp: left_join_row_def request_of_def split: list.splits)

lemma distinct_pending_ids:
  assumes "unique_ids s"
  shows "distinct (map fst (list_pending_requests s))"
proof -
  have "distinct (map (\<lambda>(r, p). r_id r) (filter (\<lambda>(r, p). deliveries_of s r = []) (request_person s)))"
    using distinct_request_person_ids [OF assms] by (rule distinct_map_filter)
  then show ?thesis
    by (simp only: pending_ids distinct_map_order_by_desc left_join_delivered_def
        request_of_pending_rows)
qed

lemma set_list_pending_requests:
  "set (list_pending_requests s) =
     {(r_id r, p_name p, p_area p, r_aid_type r, r_request_date r) | r p.
        r \<in> set (aid_requests s) \<and> p \<in> set (people s) \<and> p_id p = r_person_id r \<and>
        no_delivery s r}"
  (is "?L = ?R")
proof (intro set_eqI iffI)
  fix row assume "row \<in> ?L"
  then obtain r p d where "(r, p, d) \<in> set (left_join_delivered s)" "d = None"
    "row = pending_row (r, p, d)"
    by (auto simp: list_pending_requests_def set_order_by_desc)
  then show "row \<in> ?R"
    by (auto simp: set_left_join_delivered deliveries_of_empty pending_row_def)
next
  fix row assume "row \<in> ?R"
  then obtain r p where rp: "r \<in> set (aid_requests s)" "p \<in> set (people s)"
    "p_id p = r_person_id r" "no_delivery s r"
    and row: "row = (r_id r, p_name p, p_area p, r_aid_type r, r_request_date r)" by auto
  then have "(r, p, None) \<in> set (left_join_delivered s)"
    by (simp add: set_left_join_delivered deliveries_of_empty)
  then have "pending_row (r, p, None) \<in> ?L"
    by (force simp: list_pending_requests_def set_order_by_desc)
  then show "row \<in> ?L" by (simp add: row pending_row_def)
qed

text \<open>
  Claim C5 at a failing input. A request whose person does not exist is in no row of the
  join. After \<^verbatim>\<open>add_request(999, "Food", "2024-01-10")\<close> on a new store the request
  is stored and has no delivery, and \<^verbatim>\<open>list_pending_requests\<close> returns nothing.
\<close>

theorem list_pending_requests_dangling:
  "run [add_request 999 ''Food'' ''2024-01-10''] (init_db empty_db) = Inr dangling_request_db \<and>
   aid_requests dangling_request_db = [food_request 1 999] \<and>
   aid_delivered dangling_request_db = [] \<and>
   list_pending_requests dangling_request_db = []"
  by code_simp

text \<open>
  In the states in which every request has its person the pending list is as
  specified. The rows of \<^verbatim>\<open>list_pending_requests\<close> are exactly the tuples (request
  id, person name, area, aid type, request date) of the requests no delivery refers
  to; every such request is listed, each request id at most once, and the ids descend.
\<close>

theorem list_pending_requests_spec:
  assumes "unique_ids s" and "requests_have_person s"
  shows "set (list_pending_requests s) =
           {(r_id r, p_name p, p_area p, r_aid_type r, r_request_date r) | r p.
              r \<in> set (aid_requests s) \<and> p \<in> set (people s) \<and> p_id p = r_person_id r \<and>
              no_delivery s r} \<and>
         fst ` set (list_pending_requests s) =
           {r_id r | r. r \<in> set (aid_requests s) \<and> no_delivery s r} \<and>
         distinct (map fst (list_pending_requests s)) \<and>
         descending (map fst (list_pending_requests s))"
proof (intro conjI)
  show "set (list_pending_requests s) =
           {(r_id r, p_name p, p_area p, r_aid_type r, r_request_date r) | r p.
              r \<in> set (aid_requests s) \<and> p \<in> set (people s) \<and> p_id p = r_person_id r \<and>
              no_delivery s r}"
    by (rule set_list_pending_requests)
next
  show "fst ` set (list_pending_requests s) =
           {r_id r | r. r \<in> set (aid_requests s) \<and> no_delivery s r}"
  proof (intro set_eqI iffI)
    fix i assume "i \<in> fst ` set (list_pending_requests s)"
    then show "i \<in> {r_id r | r. r \<in> set (aid_requests s) \<and> no_delivery s r}"
      by (auto simp: set_list_pending_requests)
  next
    fix i assume "i \<in> {r_id r | r. r \<in> set (aid_requests s) \<and> no_delivery s r}"
    then obtain r where r: "r \<in> set (aid_requests s)" "no_delivery s r" "i = r_id r" by auto
    then obtain p where p: "p \<in> set (people s)" "p_id p = r_person_id r"
      using assms(2) by (auto simp: requests_have_person_def)
    have "(r_id r, p_name p, p_area p, r_aid_type r, r_request_date r)
            \<in> set (list_pending_requests s)"
      unfolding set_list_pending_requests using r p by blast
    then show "i \<in> fst ` set (list_pending_requests s)"
      using r(3) by force
  qed
next
  show "distinct (map fst (list_pending_requests s))"
    using assms(1) by (rule distinct_pending_ids)
next
  show "descending (map fst (list_pending_requests s))"
    by (simp only: pending_ids descending_order_by_desc)
qed

theorem list_pending_requests_spec_witness:
  "unique_ids requested_db \<and> requests_have_person requested_db \<and>
   fst ` set (list_pending_requests requested_db) =
     {r_id r | r. r \<in> set (aid_requests requested_db) \<and> no_delivery requested_db r} \<and>
   list_pending_requests requested_db = [(1, ''Asha'', ''North'', ''Food'', ''2024-01-10'')]"
proof -
  have h1: "unique_ids requested_db" by code_simp
  have h2: "requests_have_person requested_db" by code_simp
  have h3: "list_pending_requests requested_db = [(1, ''Asha'', ''North'', ''Food'', ''2024-01-10'')]"
    by code_simp
  show ?thesis using h1 h2 h3 list_pending_requests_spec [OF h1 h2] by blast
qed

subsection \<open>Search\<close>

lemma like_percent_only: "like_match ''%'' t"
  by (induction t) simp_all

lemma like_percent_iff:
  "like_match (CHR ''%'' # pat) t \<longleftrightarrow> (\<exists>u. suffix u t \<and> like_match pat u)"
proof (induction t)
  case Nil
  then show ?case by simp
next
  case (Cons x t)
  show ?case
    by (auto simp: Cons suffix_Cons)
qed

lemma like_literal_prefix:
  "wildcard_free a \<Longrightarrow>
     like_match (a @ ''%'') t \<longleftrightarrow> prefix (map ascii_lower a) (map ascii_lower t)"
proof (induction a arbitrary: t)
  case Nil
  then show ?case by (simp add: like_percent_only)
next
  case (Cons c a)
  then have a: "wildcard_free a" and c: "c \<noteq> CHR ''%''" "c \<noteq> CHR ''_''"
    by (auto simp: wildcard_free_def)
  show ?case
  proof (cases t)
    case Nil
    then show ?thesis using c by simp
  next
    case (Cons x t')
    then show ?thesis using c Cons.IH [OF a, of t'] by simp
  qed
qed

lemma like_substring:
  assumes "wildcard_free a"
  shows "like_match (''%'' @ a @ ''%'') t \<longleftrightarrow> sublist (map ascii_lower a) (map ascii_lower t)"
proof
  assume "like_match (''%'' @ a @ ''%'') t"
  then obtain u where u: "suffix u t" "like_match (a @ ''%'') u"
    by (auto simp: like_percent_iff)
  then have "prefix (map ascii_lower a) (map ascii_lower u)"
    using like_literal_prefix [OF assms] by simp
  moreover have "suffix (map ascii_lower u) (map ascii_lower t)"
    using u(1) by (rule map_mono_suffix)
  ultimately show "sublist (map ascii_lower a) (map ascii_lower t)"
    unfolding sublist_altdef' by blast
next
  assume "sublist (map ascii_lower a) (map ascii_lower t)"
  then obtain v where v: "suffix v (map ascii_lower t)" "prefix (map ascii_lower a) v"
    unfolding sublist_altdef' by blast
  obtain u where u: "suffix u t" "v = map ascii_lower u"
    using suffix_map_rightE [OF v(1)] by blast
  then have "like_match (a @ ''%'') u"
    using v(2) like_literal_prefix [OF assms] by simp
  with u(1) show "like_match (''%'' @ a @ ''%'') t"
    by (auto simp: like_percent_iff)
qed

lemma c_string_plain: "CHR 0x00 \<notin> set t \<Longrightarrow> c_string t = t"
  by (auto simp: c_string_def takeWhile_eq_all_conv)

lemma sql_like_substring:
  assumes "wildcard_free a" and "CHR 0x00 \<notin> set a"
  shows "sql_like (''%'' @ a @ ''%'') t \<longleftrightarrow>
           sublist (map ascii_lower a) (map ascii_lower (c_string t))"
proof -
  have "CHR 0x00 \<notin> set (''%'' @ a @ ''%'')" using assms(2) by simp
  then have "c_string (''%'' @ a @ ''%'') = ''%'' @ a @ ''%''" by (rule c_string_plain)
  then show ?thesis
    using like_substring [OF assms(1), of "c_string t"] by (simp add: sql_like_def)
qed

lemma set_search_join:
  "set (search_join s area status) =
     {j \<in> set (left_join_delivered s). search_where area status j}"
  by (auto simp: search_join_def set_order_by_desc)

lemma set_search_rows:
  "set (search_rows s area status) =
     search_row ` {j \<in> set (left_join_delivered s). search_where area status j}"
  by (simp add: search_rows_def set_search_join)

lemma search_no_filter: "search s [] status = Inr (search_rows s [] status)"
  by (simp add: search_def)

lemma search_plain_filter:
  "plain_filter area \<Longrightarrow> search s area status = Inr (search_rows s area status)"
  by (simp add: search_def plain_filter_def)

lemma search_pattern_too_complex:
  "area \<noteq> [] \<Longrightarrow> pattern_too_complex (''%'' @ area @ ''%'') \<Longrightarrow> request_person s \<noteq> [] \<Longrightarrow>
     search s area status = Inl OperationalError"
  by (simp add: search_def)

lemma search_stops_at_nul:
  "run [add_person ''Asha'' [CHR ''x'', CHR 0x00, CHR ''a''] None,
        add_request 1 ''Food'' ''2024-01-10''] (init_db empty_db) = Inr nul_area_db \<and>
   search nul_area_db ''a'' ''All'' = Inr [] \<and>
   search nul_area_db ''X'' ''All'' =
     Inr [(''Asha'', [CHR ''x'', CHR 0x00, CHR ''a''], ''Food'', ''2024-01-10'', ''PENDING'')]"
  by code_simp

text \<open>
  The area filter is not matched as a case-sensitive substring: \<^verbatim>\<open>north\<close> finds the
  area \<^verbatim>\<open>North\<close>, and \<^verbatim>\<open>N_r%h\<close>, which is no substring of it, finds it too.
\<close>

theorem search_like_counterexample:
  "run [add_person ''Asha'' ''North'' (Some 34), add_request 1 ''Food'' ''2024-01-10'']
     (init_db empty_db) = Inr requested_db \<and>
   \<not> sublist ''north'' ''North'' \<and>
   search requested_db ''north'' ''All'' =
     Inr [(''Asha'', ''North'', ''Food'', ''2024-01-10'', ''PENDING'')] \<and>
   \<not> sublist ''N_r%h'' ''North'' \<and>
   search requested_db ''N_r%h'' ''Pending'' =
     Inr [(''Asha'', ''North'', ''Food'', ''2024-01-10'', ''PENDING'')]"
  by code_simp

text \<open>
  Claim C4, as the code has it, for a plain area filter: one without \<^verbatim>\<open>%\<close>, \<^verbatim>\<open>_\<close>
  and NUL whose pattern \<^verbatim>\<open>%filter%\<close> has at most 50000 bytes. \<^verbatim>\<open>search\<close> raises
  nothing and returns the five columns of the joined rows it selects. These are, each
  once, the triples of a request, its person and either one of the request's delivery
  rows or, for a request without delivery, none, such that the person's area, read up
  to its first NUL character if it has one, contains the filter as a substring when
  ASCII letters are compared without case (every area contains the empty filter), with
  no delivery when the status is \<^verbatim>\<open>Pending\<close> and with one when it is
  \<^verbatim>\<open>Delivered\<close>. The rows come by request id, descending; the last column is
  \<^verbatim>\<open>PENDING\<close> without a delivery and the delivery's date with one.
\<close>

theorem search_spec:
  assumes "plain_filter area" and "unique_ids s"
  shows "search s area status = Inr (map search_row (search_join s area status)) \<and>
         set (search_join s area status) =
           {(r, p, d). r \<in> set (aid_requests s) \<and> p \<in> set (people s) \<and>
              p_id p = r_person_id r \<and>
              sublist (map ascii_lower area) (map ascii_lower (c_string (p_area p))) \<and>
              (case d of None \<Rightarrow> no_delivery s r
               | Some dl \<Rightarrow> dl \<in> set (aid_delivered s) \<and> d_request_id dl = r_id r) \<and>
              (status = ''Pending'' \<longrightarrow> d = None) \<and>
              (status = ''Delivered'' \<longrightarrow> d \<noteq> None)} \<and>
         distinct (search_join s area status) \<and>
         descending (map request_of (search_join s area status)) \<and>
         (\<forall>r p. search_row (r, p, None) =
            (p_name p, p_area p, r_aid_type r, r_request_date r, ''PENDING'')) \<and>
         (\<forall>r p dl. search_row (r, p, Some dl) =
            (p_name p, p_area p, r_aid_type r, r_request_date r, d_delivery_date dl))"
proof (intro conjI)
  show "search s area status = Inr (map search_row (search_join s area status))"
    using search_plain_filter [OF assms(1)] by (simp add: search_rows_def)
next
  have wf: "wildcard_free area" and nul: "CHR 0x00 \<notin> set area"
    using assms(1) by (simp_all add: plain_filter_def)
  have m: "area \<noteq> [] \<longrightarrow> sql_like (''%'' @ area @ ''%'') t \<longleftrightarrow>
             sublist (map ascii_lower area) (map ascii_lower (c_string t))" for t
    using sql_like_substring [OF wf nul, of t] by (cases area) auto
  show "set (search_join s area status) =
           {(r, p, d). r \<in> set (aid_requests s) \<and> p \<in> set (people s) \<and>
              p_id p = r_person_id r \<and>
              sublist (map ascii_lower area) (map ascii_lower (c_string (p_area p))) \<and>
              (case d of None \<Rightarrow> no_delivery s r
               | Some dl \<Rightarrow> dl \<in> set (aid_delivered s) \<and> d_request_id dl = r_id r) \<and>
              (status = ''Pending'' \<longrightarrow> d = None) \<and>
              (status = ''Delivered'' \<longrightarrow> d \<noteq> None)}"
  proof (intro set_eqI)
    fix j :: joined
    obtain r p d where j: "j = (r, p, d)" by (cases j)
    have w: "search_where area status (r, p, d) \<longleftrightarrow>
               sublist (map ascii_lower area) (map ascii_lower (c_string (p_area p))) \<and>
               (status = ''Pending'' \<longrightarrow> d = None) \<and> (status = ''Delivered'' \<longrightarrow> d \<noteq> None)"
      using m [of "p_area p"] by (cases "area = []") (simp_all add: search_where_def)
    have c: "(case d of None \<Rightarrow> deliveries_of s r = [] | Some dl \<Rightarrow> dl \<in> set (deliveries_of s r)) \<longleftrightarrow>
             (case d of None \<Rightarrow> no_delivery s r
               | Some dl \<Rightarrow> dl \<in> set (aid_delivered s) \<and> d_request_id dl = r_id r)"
      by (simp add: deliveries_of_empty deliveries_of_mem split: option.splits)
    show "j \<in> set (search_join s area status) \<longleftrightarrow>
          j \<in> {(r, p, d). r \<in> set (aid_requests s) \<and> p \<in> set (people s) \<and>
              p_id p = r_person_id r \<and>
              sublist (map ascii_lower area) (map ascii_lower (c_string (p_area p))) \<and>
              (case d of None \<Rightarrow> no_delivery s r
               | Some dl \<Rightarrow> dl \<in> set (aid_delivered s) \<and> d_request_id dl = r_id r) \<and>
              (status = ''Pending'' \<longrightarrow> d = None) \<and>
              (status = ''Delivered'' \<longrightarrow> d \<noteq> None)}"
      unfolding set_search_join j using w c
      by (simp add: set_left_join_delivered) blast
  qed
next
  show "distinct (search_join s area status)"
    using distinct_left_join_delivered [OF assms(2)]
    by (simp add: search_join_def order_by_desc_def)
next
  show "descending (map request_of (search_join s area status))"
    by (simp only: search_join_def descending_order_by_desc)
qed (simp_all add: search_row_def)

theorem search_spec_witness:
  "plain_filter ''ort'' \<and> unique_ids twice_delivered_db \<and>
   distinct (search_join twice_delivered_db ''ort'' ''Delivered'') \<and>
   descending (map request_of (search_join twice_delivered_db ''ort'' ''Delivered'')) \<and>
   search twice_delivered_db ''ort'' ''Delivered'' =
     Inr [(''Asha'', ''North'', ''Food'', ''2024-01-10'', ''2024-01-12''),
          (''Asha'', ''North'', ''Food'', ''2024-01-10'', ''2024-01-13'')]"
proof -
  have h1: "plain_filter ''ort''" by code_simp
  have h2: "unique_ids twice_delivered_db" by code_simp
  have h3: "search twice_delivered_db ''ort'' ''Delivered'' =
     Inr [(''Asha'', ''North'', ''Food'', ''2024-01-10'', ''2024-01-12''),
          (''Asha'', ''North'', ''Food'', ''2024-01-10'', ''2024-01-13'')]" by code_simp
  show ?thesis using h1 h2 h3 search_spec [OF h1 h2, of "''Delivered''"] by blast
qed

subsection \<open>A request delivered more than once\<close>

lemma request_person_single:
  assumes "unique_ids s" "r \<in> set (aid_requests s)" "p \<in> set (people s)"
    "p_id p = r_person_id r"
  shows "filter (\<lambda>(r', p'). r_id r' = r_id r) (request_person s) = [(r, p)]"
proof -
  have "(r, p) \<in> set (request_person s)" using assms by (simp add: set_request_person)
  then show ?thesis
    using filter_key_single [OF distinct_request_person_ids [OF assms(1)], of "(r, p)"]
    by (simp add: case_prod_unfold)
qed

lemma mset_filter_split: "mset xs = mset (filter P xs) + mset (filter (\<lambda>x. \<not> P x) xs)"
  by (induction xs) simp_all

lemma rows_of_request:
  assumes "unique_ids s" "r \<in> set (aid_requests s)" "p \<in> set (people s)"
    "p_id p = r_person_id r"
  shows "mset (filter (\<lambda>j. request_of j = r_id r) (search_join s area status)) =
           mset (filter (search_where area status) (left_join_row s (r, p)))"
proof -
  have "filter (\<lambda>j. request_of j = r_id r) (left_join_delivered s) = left_join_row s (r, p)"
    by (simp add: filter_request_left_join request_person_single [OF assms])
  then have "filter (\<lambda>j. request_of j = r_id r \<and> search_where area status j) (left_join_delivered s) =
        filter (search_where area status) (left_join_row s (r, p))"
    by (metis filter_filter)
  moreover have "filter (\<lambda>j. request_of j = r_id r) (search_join s area status) =
     order_by_desc request_of (filter (\<lambda>j. request_of j = r_id r \<and> search_where area status j) (left_join_delivered s))"
    by (simp add: search_join_def filter_order_by_desc conj_commute)
  ultimately show ?thesis by (simp add: mset_order_by_desc)
qed

lemma rows_of_delivered_request:
  assumes "unique_ids s" "r \<in> set (aid_requests s)" "p \<in> set (people s)"
    "p_id p = r_person_id r" "deliveries_of s r \<noteq> []"
    "status = ''Delivered'' \<or> status = ''All''"
  shows "mset (search_rows s [] status) =
           mset (map (\<lambda>d. (p_name p, p_area p, r_aid_type r, r_request_date r, d_delivery_date d))
                     (deliveries_of s r)) +
           mset (map search_row (filter (\<lambda>j. request_of j \<noteq> r_id r) (search_join s [] status)))"
proof -
  obtain d ds where ds: "deliveries_of s r = d # ds"
    using assms(5) by (cases "deliveries_of s r") auto
  have row: "left_join_row s (r, p) = map (\<lambda>d. (r, p, Some d)) (deliveries_of s r)"
    by (simp add: left_join_row_def ds)
  have "filter (search_where [] status) (left_join_row s (r, p)) = left_join_row s (r, p)"
    unfolding row using assms(6) by (intro filter_True) (auto simp: search_where_def)
  then have own: "mset (filter (\<lambda>j. request_of j = r_id r) (search_join s [] status)) =
      mset (map (\<lambda>d. (r, p, Some d)) (deliveries_of s r))"
    using rows_of_request [OF assms(1-4), of "[]" status] by (simp add: row)
  have rowmap: "map search_row (map (\<lambda>d. (r, p, Some d)) (deliveries_of s r)) =
      map (\<lambda>d. (p_name p, p_area p, r_aid_type r, r_request_date r, d_delivery_date d))
          (deliveries_of s r)"
    by (simp add: search_row_def)
  have "mset (map search_row (filter (\<lambda>j. request_of j = r_id r) (search_join s [] status))) =
        mset (map search_row (map (\<lambda>d. (r, p, Some d)) (deliveries_of s r)))"
    by (simp only: mset_map own)
  then have own_rows:
    "mset (map search_row (filter (\<lambda>j. request_of j = r_id r) (search_join s [] status))) =
       mset (map (\<lambda>d. (p_name p, p_area p, r_aid_type r, r_request_date r, d_delivery_date d))
                 (deliveries_of s r))"
    by (simp only: rowmap)
  have "mset (search_rows s [] status) =
          mset (map search_row (filter (\<lambda>j. request_of j = r_id r) (search_join s [] status))) +
          mset (map search_row (filter (\<lambda>j. request_of j \<noteq> r_id r) (search_join s [] status)))"
    by (simp only: search_rows_def mset_map image_mset_union [symmetric]
        mset_filter_split [symmetric])
  then show ?thesis by (simp only: own_rows)
qed

text \<open>
  After two calls of \<^verbatim>\<open>mark_delivered\<close> for the one request of the store, \<^verbatim>\<open>search\<close>
  returns two rows for it, one per delivery, under \<^verbatim>\<open>Delivered\<close> and under \<^verbatim>\<open>All\<close>.
\<close>

theorem double_delivery_counterexample:
  "run [add_person ''Asha'' ''North'' (Some 34), add_request 1 ''Food'' ''2024-01-10'',
        mark_delivered 1 ''Rice 5kg'' ''2024-01-12'', mark_delivered 1 ''Rice 5kg'' ''2024-01-13'']
     (init_db empty_db) = Inr twice_delivered_db \<and>
   aid_requests twice_delivered_db = [food_request 1 1] \<and>
   list_pending_requests twice_delivered_db = [] \<and>
   search twice_delivered_db [] ''Delivered'' =
     Inr [(''Asha'', ''North'', ''Food'', ''2024-01-10'', ''2024-01-12''),
          (''Asha'', ''North'', ''Food'', ''2024-01-10'', ''2024-01-13'')] \<and>
   search twice_delivered_db [] ''All'' =
     Inr [(''Asha'', ''North'', ''Food'', ''2024-01-10'', ''2024-01-12''),
          (''Asha'', ''North'', ''Food'', ''2024-01-10'', ''2024-01-13'')]"
  by code_simp

text \<open>
  Claim C3, as the code has it. Take a request, its person, and two or more delivery
  rows that refer to the request. The request is in no row of
  \<^verbatim>\<open>list_pending_requests\<close>. \<^verbatim>\<open>search\<close> with no area filter and status \<^verbatim>\<open>Delivered\<close>,
  and likewise with status \<^verbatim>\<open>All\<close>, returns rows that are, counted with their
  repetitions and in whatever order, one row for each of those delivery rows, with
  the person's name and area, the request's aid type and date and that delivery's
  date, together with the rows of the other requests. The joined rows of the request
  that \<^verbatim>\<open>search\<close> selects are as many as the delivery rows.
\<close>

theorem delivered_rows_per_delivery:
  assumes "unique_ids s" and "r \<in> set (aid_requests s)"
    and "p \<in> set (people s)" and "p_id p = r_person_id r"
    and "2 \<le> length (deliveries_of s r)"
  shows "r_id r \<notin> fst ` set (list_pending_requests s) \<and>
         search s [] ''Delivered'' = Inr (search_rows s [] ''Delivered'') \<and>
         mset (search_rows s [] ''Delivered'') =
           mset (map (\<lambda>d. (p_name p, p_area p, r_aid_type r, r_request_date r, d_delivery_date d))
                     (deliveries_of s r)) +
           mset (map search_row
                  (filter (\<lambda>j. request_of j \<noteq> r_id r) (search_join s [] ''Delivered''))) \<and>
         search s [] ''All'' = Inr (search_rows s [] ''All'') \<and>
         mset (search_rows s [] ''All'') =
           mset (map (\<lambda>d. (p_name p, p_area p, r_aid_type r, r_request_date r, d_delivery_date d))
                     (deliveries_of s r)) +
           mset (map search_row
                  (filter (\<lambda>j. request_of j \<noteq> r_id r) (search_join s [] ''All''))) \<and>
         length (filter (\<lambda>j. request_of j = r_id r) (search_join s [] ''Delivered'')) =
           length (deliveries_of s r) \<and>
         length (filter (\<lambda>j. request_of j = r_id r) (search_join s [] ''All'')) =
           length (deliveries_of s r)"
proof -
  have ne: "deliveries_of s r \<noteq> []" using assms(5) by auto
  have row: "left_join_row s (r, p) = map (\<lambda>d. (r, p, Some d)) (deliveries_of s r)"
    using ne by (cases "deliveries_of s r") (simp_all add: left_join_row_def)
  have all: "filter (search_where [] status) (left_join_row s (r, p)) = left_join_row s (r, p)"
    if "status = ''Delivered'' \<or> status = ''All''" for status
    unfolding row using that by (intro filter_True) (auto simp: search_where_def)
  have n: "length (filter (\<lambda>j. request_of j = r_id r) (search_join s [] status)) =
      length (deliveries_of s r)" if "status = ''Delivered'' \<or> status = ''All''" for status
  proof -
    have "length (filter (\<lambda>j. request_of j = r_id r) (search_join s [] status)) =
          size (mset (filter (\<lambda>j. request_of j = r_id r) (search_join s [] status)))"
      by (simp only: size_mset)
    also have "\<dots> = size (mset (left_join_row s (r, p)))"
      by (simp only: rows_of_request [OF assms(1-4), of "[]" status] all [OF that])
    also have "\<dots> = length (deliveries_of s r)"
      by (simp only: size_mset row length_map)
    finally show ?thesis .
  qed
  have pend: "r_id r \<notin> fst ` set (list_pending_requests s)"
  proof
    assume "r_id r \<in> fst ` set (list_pending_requests s)"
    then obtain r' where r': "r' \<in> set (aid_requests s)" "no_delivery s r'" "r_id r' = r_id r"
      by (auto simp: set_list_pending_requests)
    have "distinct (map r_id (aid_requests s))" using assms(1) by (simp add: unique_ids_def)
    then have "r' = r" using r' assms(2) by (intro same_key [of r_id]) simp_all
    then have "deliveries_of s r = []" using r'(2) by (simp add: deliveries_of_empty)
    with ne show False by simp
  qed
  show ?thesis
    using pend n [of "''Delivered''"] n [of "''All''"]
      rows_of_delivered_request [OF assms(1-4) ne, of "''Delivered''"]
      rows_of_delivered_request [OF assms(1-4) ne, of "''All''"]
    by (simp add: search_no_filter)
qed

theorem delivered_rows_per_delivery_witness:
  "unique_ids twice_delivered_db \<and> food_request 1 1 \<in> set (aid_requests twice_delivered_db) \<and>
   asha \<in> set (people twice_delivered_db) \<and> p_id asha = r_person_id (food_request 1 1) \<and>
   2 \<le> length (deliveries_of twice_delivered_db (food_request 1 1)) \<and>
   r_id (food_request 1 1) \<notin> fst ` set (list_pending_requests twice_delivered_db) \<and>
   mset (search_rows twice_delivered_db [] ''Delivered'') =
     mset (map (\<lambda>d. (p_name asha, p_area asha, r_aid_type (food_request 1 1),
                      r_request_date (food_request 1 1), d_delivery_date d))
               (deliveries_of twice_delivered_db (food_request 1 1))) +
     mset (map search_row (filter (\<lambda>j. request_of j \<noteq> r_id (food_request 1 1))
                             (search_join twice_delivered_db [] ''Delivered''))) \<and>
   search twice_delivered_db [] ''Delivered'' =
     Inr [(''Asha'', ''North'', ''Food'', ''2024-01-10'', ''2024-01-12''),
          (''Asha'', ''North'', ''Food'', ''2024-01-10'', ''2024-01-13'')]"
proof -
  have h1: "unique_ids twice_delivered_db" by code_simp
  have h2: "food_request 1 1 \<in> set (aid_requests twice_delivered_db)" by code_simp
  have h3: "asha \<in> set (people twice_delivered_db)" by code_simp
  have h4: "p_id asha = r_person_id (food_request 1 1)" by code_simp
  have h5: "2 \<le> length (deliveries_of twice_delivered_db (food_request 1 1))" by code_simp
  have h6: "search twice_delivered_db [] ''Delivered'' =
     Inr [(''Asha'', ''North'', ''Food'', ''2024-01-10'', ''2024-01-12''),
          (''Asha'', ''North'', ''Food'', ''2024-01-10'', ''2024-01-13'')]" by code_simp
  show ?thesis
    using h1 h2 h3 h4 h5 h6 delivered_rows_per_delivery [OF h1 h2 h3 h4 h5] by blast
qed

subsection \<open>All is Pending and Delivered together\<close>

lemma search_where_status:
  "search_where [] ''All'' j \<and>
   (search_where [] ''Delivered'' j \<longleftrightarrow> \<not> search_where [] ''Pending'' j)"
  by (cases j) (simp add: search_where_def)

lemma search_join_partition:
  "mset (search_join s [] ''All'') =
     mset (search_join s [] ''Pending'') + mset (search_join s [] ''Delivered'')"
proof -
  have a: "filter (search_where [] ''All'') xs = xs" for xs :: "joined list"
    by (simp add: search_where_status)
  have d: "filter (search_where [] ''Delivered'') xs =
           filter (\<lambda>j. \<not> search_where [] ''Pending'' j) xs" for xs :: "joined list"
    by (intro filter_cong refl) (simp add: search_where_status)
  show ?thesis
    using mset_filter_split [of "left_join_delivered s" "search_where [] ''Pending''"]
    by (simp add: search_join_def mset_order_by_desc a d)
qed

text \<open>
  Two rows of a result can hold the same five values. A delivery whose date is the text
  \<^verbatim>\<open>PENDING\<close> (the date is free text) makes the row of a delivered request hold the
  values of the row of a pending request of the same person, aid type and request
  date. They are rows of two requests, and \<^verbatim>\<open>search("", "All")\<close> returns both; which
  row of the result is which request's is told by the joined row it is taken from,
  not by its values.
\<close>

lemma sentinel_date_rows_coincide:
  "run [add_person ''Asha'' ''North'' (Some 34), add_request 1 ''Food'' ''2024-01-10'',
        add_request 1 ''Food'' ''2024-01-10'', mark_delivered 1 ''Rice 5kg'' ''PENDING'']
     (init_db empty_db) = Inr sentinel_db \<and>
   search sentinel_db [] ''Pending'' =
     Inr [(''Asha'', ''North'', ''Food'', ''2024-01-10'', ''PENDING'')] \<and>
   search sentinel_db [] ''Delivered'' =
     Inr [(''Asha'', ''North'', ''Food'', ''2024-01-10'', ''PENDING'')] \<and>
   search sentinel_db [] ''All'' =
     Inr [(''Asha'', ''North'', ''Food'', ''2024-01-10'', ''PENDING''),
          (''Asha'', ''North'', ''Food'', ''2024-01-10'', ''PENDING'')] \<and>
   map request_of (search_join sentinel_db [] ''Pending'') = [2] \<and>
   map request_of (search_join sentinel_db [] ''Delivered'') = [1] \<and>
   map request_of (search_join sentinel_db [] ''All'') = [2, 1]"
  by code_simp

lemma search_values_disjoint:
  assumes "no_sentinel_date s"
  shows "set (search_rows s [] ''Pending'') \<inter> set (search_rows s [] ''Delivered'') = {}"
proof (rule ccontr)
  assume "set (search_rows s [] ''Pending'') \<inter> set (search_rows s [] ''Delivered'') \<noteq> {}"
  then obtain row where a: "row \<in> set (search_rows s [] ''Pending'')"
    and b: "row \<in> set (search_rows s [] ''Delivered'')" by auto
  from a have "snd (snd (snd (snd row))) = ''PENDING''"
    by (auto simp: set_search_rows search_where_def search_row_def)
  moreover from b obtain r p dl where "(r, p, Some dl) \<in> set (left_join_delivered s)"
    "row = search_row (r, p, Some dl)"
    by (auto simp: set_search_rows search_where_def)
  then have "dl \<in> set (aid_delivered s)" "snd (snd (snd (snd row))) = d_delivery_date dl"
    by (simp_all add: set_left_join_delivered deliveries_of_mem search_row_def)
  ultimately show False using assms by (auto simp: no_sentinel_date_def)
qed

text \<open>
  Claim C6. In every state the three calls return their rows without raising. A row of
  a result being the joined row it is taken from: the rows of \<^verbatim>\<open>search("", "All")\<close> are
  those of \<^verbatim>\<open>search("", "Pending")\<close> and those of \<^verbatim>\<open>search("", "Delivered")\<close>, and no
  row is of both. In values: the rows returned for \<^verbatim>\<open>All\<close> are, counted with their
  repetitions, those returned for \<^verbatim>\<open>Pending\<close> together with those returned for
  \<^verbatim>\<open>Delivered\<close>, so every row of the \<^verbatim>\<open>All\<close> result is accounted for by exactly one
  of the two and none of theirs is missing from it.
\<close>

theorem search_all_is_disjoint_union:
  "search s [] ''All'' = Inr (search_rows s [] ''All'') \<and>
   search s [] ''Pending'' = Inr (search_rows s [] ''Pending'') \<and>
   search s [] ''Delivered'' = Inr (search_rows s [] ''Delivered'') \<and>
   set (search_join s [] ''All'') =
     set (search_join s [] ''Pending'') \<union> set (search_join s [] ''Delivered'') \<and>
   set (search_join s [] ''Pending'') \<inter> set (search_join s [] ''Delivered'') = {} \<and>
   mset (search_rows s [] ''All'') =
     mset (search_rows s [] ''Pending'') + mset (search_rows s [] ''Delivered'') \<and>
   set (search_rows s [] ''All'') =
     set (search_rows s [] ''Pending'') \<union> set (search_rows s [] ''Delivered'')"
proof -
  have u: "set (search_join s [] ''All'') =
     set (search_join s [] ''Pending'') \<union> set (search_join s [] ''Delivered'')"
    using search_where_status by (auto simp: set_search_join)
  have i: "set (search_join s [] ''Pending'') \<inter> set (search_join s [] ''Delivered'') = {}"
    using search_where_status by (auto simp: set_search_join)
  have m: "mset (search_rows s [] ''All'') =
     mset (search_rows s [] ''Pending'') + mset (search_rows s [] ''Delivered'')"
  proof -
    have "mset (search_rows s [] ''All'') = image_mset search_row (mset (search_join s [] ''All''))"
      by (simp add: search_rows_def)
    also have "\<dots> = image_mset search_row (mset (search_join s [] ''Pending'')) +
                     image_mset search_row (mset (search_join s [] ''Delivered''))"
      by (simp only: search_join_partition image_mset_union)
    finally show ?thesis by (simp add: search_rows_def)
  qed
  have v: "set (search_rows s [] ''All'') =
     set (search_rows s [] ''Pending'') \<union> set (search_rows s [] ''Delivered'')"
    using arg_cong [OF m, of set_mset] by simp
  show ?thesis using u i m v by (simp add: search_no_filter)
qed

theorem search_all_is_disjoint_union_witness:
  "search mixed_db [] ''All'' =
     Inr [(''Asha'', ''North'', ''Water'', ''2024-01-11'', ''PENDING''),
          (''Asha'', ''North'', ''Food'', ''2024-01-10'', ''2024-01-12'')] \<and>
   search mixed_db [] ''Pending'' =
     Inr [(''Asha'', ''North'', ''Water'', ''2024-01-11'', ''PENDING'')] \<and>
   search mixed_db [] ''Delivered'' =
     Inr [(''Asha'', ''North'', ''Food'', ''2024-01-10'', ''2024-01-12'')] \<and>
   mset (search_rows mixed_db [] ''All'') =
     mset (search_rows mixed_db [] ''Pending'') + mset (search_rows mixed_db [] ''Delivered'') \<and>
   set (search_join mixed_db [] ''Pending'') \<inter> set (search_join mixed_db [] ''Delivered'') = {}"
proof -
  have h1: "search mixed_db [] ''All'' =
     Inr [(''Asha'', ''North'', ''Water'', ''2024-01-11'', ''PENDING''),
          (''Asha'', ''North'', ''Food'', ''2024-01-10'', ''2024-01-12'')]" by code_simp
  have h2: "search mixed_db [] ''Pending'' =
     Inr [(''Asha'', ''North'', ''Water'', ''2024-01-11'', ''PENDING'')]" by code_simp
  have h3: "search mixed_db [] ''Delivered'' =
     Inr [(''Asha'', ''North'', ''Food'', ''2024-01-10'', ''2024-01-12'')]" by code_simp
  show ?thesis using h1 h2 h3 search_all_is_disjoint_union [of mixed_db] by blast
qed

subsection \<open>Deliveries by area\<close>

lemma delivery_join_row_cases:
  assumes "unique_ids s"
  shows "(delivery_join_row s d = [] \<and> (\<forall>a. \<not> delivered_in_area s a d)) \<or>
         (\<exists>r\<in>set (aid_requests s). \<exists>p\<in>set (people s).
            r_id r = d_request_id d \<and> p_id p = r_person_id r \<and>
            delivery_join_row s d = [(d, r, p)] \<and>
            (\<forall>a. delivered_in_area s a d \<longleftrightarrow> a = p_area p))"
proof -
  have dr: "distinct (map r_id (aid_requests s))" and dp: "distinct (map p_id (people s))"
    using assms by (simp_all add: unique_ids_def)
  have ir: "inj_on r_id (set (aid_requests s))" and ip: "inj_on p_id (set (people s))"
    using dr dp by (simp_all add: distinct_map)
  from filter_key_cases [OF dr, of "d_request_id d"] show ?thesis
  proof
    assume a: "filter (\<lambda>x. r_id x = d_request_id d) (aid_requests s) = [] \<and>
               d_request_id d \<notin> r_id ` set (aid_requests s)"
    then have "delivery_join_row s d = []" by (simp add: delivery_join_row_def)
    moreover have "\<not> delivered_in_area s a d" for a
    proof
      assume "delivered_in_area s a d"
      then obtain r where "r \<in> set (aid_requests s)" "d_request_id d = r_id r"
        by (auto simp: delivered_in_area_def)
      then have "d_request_id d \<in> r_id ` set (aid_requests s)" by simp
      with a show False by simp
    qed
    ultimately show ?thesis by simp
  next
    assume "\<exists>x\<in>set (aid_requests s). r_id x = d_request_id d \<and>
              filter (\<lambda>x. r_id x = d_request_id d) (aid_requests s) = [x]"
    then obtain r where r: "r \<in> set (aid_requests s)" "r_id r = d_request_id d"
      "filter (\<lambda>x. r_id x = d_request_id d) (aid_requests s) = [r]" by auto
    from filter_key_cases [OF dp, of "r_person_id r"] show ?thesis
    proof
      assume a: "filter (\<lambda>x. p_id x = r_person_id r) (people s) = [] \<and>
                 r_person_id r \<notin> p_id ` set (people s)"
      then have "delivery_join_row s d = []" by (simp add: delivery_join_row_def r(3))
      moreover have "\<not> delivered_in_area s a d" for a
      proof
        assume "delivered_in_area s a d"
        then obtain r' p' where "r' \<in> set (aid_requests s)" "p' \<in> set (people s)"
          "r_id r' = d_request_id d" "p_id p' = r_person_id r'"
          by (auto simp: delivered_in_area_def)
        moreover from this r have "r' = r" by (intro same_key [OF dr]) simp_all
        ultimately have "r_person_id r \<in> p_id ` set (people s)" by (simp add: image_iff) metis
        with a show False by simp
      qed
      ultimately show ?thesis by simp
    next
      assume "\<exists>x\<in>set (people s). p_id x = r_person_id r \<and>
                filter (\<lambda>x. p_id x = r_person_id r) (people s) = [x]"
      then obtain p where p: "p \<in> set (people s)" "p_id p = r_person_id r"
        "filter (\<lambda>x. p_id x = r_person_id r) (people s) = [p]" by auto
      have "delivery_join_row s d = [(d, r, p)]"
        by (simp add: delivery_join_row_def r(3) p(3))
      moreover have "delivered_in_area s a d \<longleftrightarrow> a = p_area p" for a
      proof
        assume "delivered_in_area s a d"
        then obtain r' p' where x: "r' \<in> set (aid_requests s)" "p' \<in> set (people s)"
          "r_id r' = d_request_id d" "p_id p' = r_person_id r'" "p_area p' = a"
          by (auto simp: delivered_in_area_def)
        from x r have "r' = r" by (intro same_key [OF dr]) simp_all
        with x p have "p' = p" by (intro same_key [OF dp]) simp_all
        with x show "a = p_area p" by simp
      next
        assume "a = p_area p"
        then show "delivered_in_area s a d"
          using r p by (auto simp: delivered_in_area_def)
      qed
      ultimately show ?thesis using r p by blast
    qed
  qed
qed

lemma count_concat_indicator:
  assumes "\<And>x. x \<in> set xs \<Longrightarrow> length (filter P (g x)) = (if Q x then 1 else 0)"
  shows "length (filter P (concat (map g xs))) = length (filter Q xs)"
  using assms by (induction xs) auto

lemma count_delivered_areas:
  assumes "unique_ids s"
  shows "count_list (delivered_areas s) a =
           length (filter (delivered_in_area s a) (aid_delivered s))"
proof -
  have "count_list (delivered_areas s) a =
          length (filter (\<lambda>(d, r, p). p_area p = a) (delivered_join s))"
    by (simp add: delivered_areas_def count_list_eq_length_filter filter_map comp_def
        case_prod_unfold eq_commute)
  also have "\<dots> = length (filter (delivered_in_area s a) (aid_delivered s))"
    unfolding delivered_join_def
  proof (rule count_concat_indicator)
    fix d
    show "length (filter (\<lambda>(d, r, p). p_area p = a) (delivery_join_row s d)) =
            (if delivered_in_area s a d then 1 else 0)"
      using delivery_join_row_cases [OF assms, of d]
    proof (elim disjE conjE bexE)
      assume "delivery_join_row s d = []" "\<forall>a. \<not> delivered_in_area s a d"
      then show ?thesis by simp
    next
      fix r p
      assume "delivery_join_row s d = [(d, r, p)]"
        and "\<forall>a. delivered_in_area s a d \<longleftrightarrow> a = p_area p"
      then show ?thesis by auto
    qed
  qed
  finally show ?thesis .
qed

lemma set_delivered_join:
  "(d, r, p) \<in> set (delivered_join s) \<longleftrightarrow>
     d \<in> set (aid_delivered s) \<and> r \<in> set (aid_requests s) \<and> r_id r = d_request_id d \<and>
     p \<in> set (people s) \<and> p_id p = r_person_id r"
  by (auto simp: delivered_join_def delivery_join_row_def)

lemma set_delivered_areas:
  "set (delivered_areas s) = {a. \<exists>d\<in>set (aid_delivered s). delivered_in_area s a d}"
proof (intro set_eqI iffI)
  fix a assume "a \<in> set (delivered_areas s)"
  then obtain d r p where "(d, r, p) \<in> set (delivered_join s)" "a = p_area p"
    by (auto simp: delivered_areas_def)
  then show "a \<in> {a. \<exists>d\<in>set (aid_delivered s). delivered_in_area s a d}"
    unfolding set_delivered_join delivered_in_area_def by blast
next
  fix a assume "a \<in> {a. \<exists>d\<in>set (aid_delivered s). delivered_in_area s a d}"
  then obtain d r p where "d \<in> set (aid_delivered s)" "r \<in> set (aid_requests s)"
    "p \<in> set (people s)" "r_id r = d_request_id d" "p_id p = r_person_id r" "p_area p = a"
    unfolding delivered_in_area_def by blast
  then have "(d, r, p) \<in> set (delivered_join s)" by (simp add: set_delivered_join)
  then have "(\<lambda>(d, r, p). p_area p) (d, r, p) \<in> set (delivered_areas s)"
    unfolding delivered_areas_def set_map by (rule imageI)
  then show "a \<in> set (delivered_areas s)" using \<open>p_area p = a\<close> by simp
qed

lemma length_delivered_join:
  assumes "unique_ids s" "requests_have_person s" "deliveries_have_request s"
  shows "length (delivered_join s) = length (aid_delivered s)"
proof -
  have one: "length (delivery_join_row s d) = 1" if "d \<in> set (aid_delivered s)" for d
  proof -
    have "d_request_id d \<in> r_id ` set (aid_requests s)"
      using that assms(3) by (simp add: deliveries_have_request_def)
    then obtain r where r: "r \<in> set (aid_requests s)" "d_request_id d = r_id r"
      by (auto simp: image_iff)
    then have "r_person_id r \<in> p_id ` set (people s)"
      using assms(2) by (simp add: requests_have_person_def)
    then obtain p where p: "p \<in> set (people s)" "r_person_id r = p_id p"
      by (auto simp: image_iff)
    have dia: "delivered_in_area s (p_area p) d"
      unfolding delivered_in_area_def
      by (rule bexI [OF _ r(1)], rule bexI [OF _ p(1)]) (simp add: r p)
    from delivery_join_row_cases [OF assms(1), of d] show ?thesis
    proof (elim disjE conjE bexE)
      assume "\<forall>a. \<not> delivered_in_area s a d"
      with dia show ?thesis by simp
    next
      fix r' p' assume "delivery_join_row s d = [(d, r', p')]"
      then show ?thesis by simp
    qed
  qed
  have "set ds \<subseteq> set (aid_delivered s) \<Longrightarrow>
        length (concat (map (delivery_join_row s) ds)) = length ds" for ds
  proof (induction ds)
    case Nil
    then show ?case by simp
  next
    case (Cons d ds)
    then show ?case using one [of d] by simp
  qed
  then show ?thesis by (simp add: delivered_join_def)
qed

lemma sum_count_remdups: "sum_list (map (count_list xs) (remdups xs)) = length xs"
proof -
  have "sum_list (map (count_list xs) (remdups xs)) = sum (count_list xs) (set xs)"
    by (simp add: sum_list_distinct_conv_sum_set)
  also have "\<dots> = length xs" by (rule sum_count_set) simp_all
  finally show ?thesis .
qed

lemma summary_rows:
  "set (delivered_summary_by_area s) =
     (\<lambda>a. (a, count_list (delivered_areas s) a)) ` set (delivered_areas s)"
  by (simp add: delivered_summary_by_area_def set_order_by_desc)

lemma map_fst_pair: "map fst (map (\<lambda>a. (a, c a)) xs) = xs"
  by (induction xs) simp_all

lemma summary_areas:
  "mset (map fst (delivered_summary_by_area s)) = mset (remdups (delivered_areas s))"
  by (simp only: delivered_summary_by_area_def mset_map_order_by_desc map_fst_pair)

text \<open>
  Claim C7 at a failing input. A delivery whose request does not exist is in no row of
  the join. After \<^verbatim>\<open>mark_delivered(999, "Rice 5kg", "2024-01-12")\<close> on a new store no
  request has more than one delivery, the summary is empty and its counts sum to 0,
  while the store holds one delivery.
\<close>

theorem delivered_summary_dangling:
  "run [mark_delivered 999 ''Rice 5kg'' ''2024-01-12''] (init_db empty_db) =
     Inr dangling_delivery_db \<and>
   aid_requests dangling_delivery_db = [] \<and>
   delivered_summary_by_area dangling_delivery_db = [] \<and>
   sum_list (map snd (delivered_summary_by_area dangling_delivery_db)) = 0 \<and>
   count_deliveries dangling_delivery_db = 1"
  by code_simp

text \<open>
  The summary is as specified in every state, and its total in the states in which
  references resolve. \<^verbatim>\<open>delivered_summary_by_area\<close> has one row for each area that has
  a delivery counting for it and for no other area; the count of a row is the number of
  delivery rows counting for its area; the counts descend. When every delivery has its
  request and every request its person, the counts sum to the number of delivery rows.
\<close>

theorem delivered_summary_by_area_spec:
  assumes "unique_ids s"
  shows "distinct (map fst (delivered_summary_by_area s)) \<and>
         set (map fst (delivered_summary_by_area s)) =
           {a. \<exists>d\<in>set (aid_delivered s). delivered_in_area s a d} \<and>
         (\<forall>(a, c)\<in>set (delivered_summary_by_area s).
            c = length (filter (delivered_in_area s a) (aid_delivered s))) \<and>
         descending (map (\<lambda>(a, c). int c) (delivered_summary_by_area s)) \<and>
         (requests_have_person s \<and> deliveries_have_request s \<longrightarrow>
            sum_list (map snd (delivered_summary_by_area s)) = count_deliveries s)"
proof (intro conjI impI)
  have "distinct (remdups (delivered_areas s))" by simp
  then show "distinct (map fst (delivered_summary_by_area s))"
    using mset_eq_imp_distinct_iff [OF summary_areas [of s]] by simp
next
  have "set (map fst (delivered_summary_by_area s)) = set (delivered_areas s)"
    using mset_eq_setD [OF summary_areas [of s]] by simp
  then show "set (map fst (delivered_summary_by_area s)) =
           {a. \<exists>d\<in>set (aid_delivered s). delivered_in_area s a d}"
    by (simp only: set_delivered_areas)
next
  show "\<forall>(a, c)\<in>set (delivered_summary_by_area s).
            c = length (filter (delivered_in_area s a) (aid_delivered s))"
    by (auto simp: summary_rows count_delivered_areas [OF assms])
next
  show "descending (map (\<lambda>(a, c). int c) (delivered_summary_by_area s))"
    by (simp only: delivered_summary_by_area_def descending_order_by_desc)
next
  assume refs: "requests_have_person s \<and> deliveries_have_request s"
  have "sum_list (map snd (delivered_summary_by_area s)) =
          sum_list (map snd (map (\<lambda>a. (a, count_list (delivered_areas s) a))
                                 (remdups (delivered_areas s))))"
    by (simp only: delivered_summary_by_area_def sum_list_map_order_by_desc)
  also have "\<dots> = sum_list (map (count_list (delivered_areas s)) (remdups (delivered_areas s)))"
    by (simp add: comp_def)
  also have "\<dots> = length (delivered_areas s)" by (rule sum_count_remdups)
  also have "\<dots> = length (delivered_join s)" by (simp add: delivered_areas_def)
  also have "\<dots> = length (aid_delivered s)"
    using assms refs by (simp add: length_delivered_join)
  finally show "sum_list (map snd (delivered_summary_by_area s)) = count_deliveries s"
    by (simp add: count_deliveries_def)
qed

theorem delivered_summary_by_area_spec_witness:
  "unique_ids twice_delivered_db \<and> requests_have_person twice_delivered_db \<and>
   deliveries_have_request twice_delivered_db \<and>
   delivered_summary_by_area twice_delivered_db = [(''North'', 2)] \<and>
   sum_list (map snd (delivered_summary_by_area twice_delivered_db)) =
     count_deliveries twice_delivered_db \<and>
   distinct (map fst (delivered_summary_by_area twice_delivered_db))"
proof -
  have h1: "unique_ids twice_delivered_db" by code_simp
  have h2: "requests_have_person twice_delivered_db" by code_simp
  have h3: "deliveries_have_request twice_delivered_db" by code_simp
  have h4: "delivered_summary_by_area twice_delivered_db = [(''North'', 2)]" by code_simp
  show ?thesis
    using h1 h2 h3 h4 delivered_summary_by_area_spec [OF h1] by blast
qed

subsection \<open>Export and reading back\<close>

lemma in_field_plain:
  "\<not> needs_quotes f \<Longrightarrow> csv_reader IN_FIELD fld row (f @ rest) = csv_reader IN_FIELD (fld @ f) row rest"
  by (induction f arbitrary: fld) (auto simp: needs_quotes_def special_char_def)

lemma in_quoted_field:
  "csv_reader IN_QUOTED_FIELD fld row (double_quotes f @ DQUOTE # rest) =
     csv_reader QUOTE_IN_QUOTED_FIELD (fld @ f) row rest"
  by (induction f arbitrary: fld) (auto simp: double_quotes_def)

lemma field_then_comma:
  "csv_reader START_FIELD [] row (write_field f @ COMMA # rest) =
     csv_reader START_FIELD [] (row @ [f]) rest"
proof (cases "needs_quotes f")
  case True
  then show ?thesis
    using in_quoted_field [of "[]" row f "COMMA # rest"] by (simp add: write_field_def)
next
  case False
  show ?thesis
  proof (cases f)
    case Nil
    then show ?thesis using False by (simp add: write_field_def)
  next
    case (Cons c f')
    then have c: "\<not> special_char c" and f': "\<not> needs_quotes f'"
      using False by (simp_all add: needs_quotes_def)
    then show ?thesis
      using False Cons in_field_plain [OF f', of "[c]" row "COMMA # rest"]
      by (simp add: write_field_def special_char_def)
  qed
qed

lemma field_then_crlf:
  "csv_reader START_FIELD [] row (write_field f @ CR # LF # rest) =
     (row @ [f]) # csv_reader START_RECORD [] [] rest"
proof (cases "needs_quotes f")
  case True
  then show ?thesis
    using in_quoted_field [of "[]" row f "CR # LF # rest"] by (simp add: write_field_def)
next
  case False
  show ?thesis
  proof (cases f)
    case Nil
    then show ?thesis using False by (simp add: write_field_def)
  next
    case (Cons c f')
    then have c: "\<not> special_char c" and f': "\<not> needs_quotes f'"
      using False by (simp_all add: needs_quotes_def)
    then show ?thesis
      using False Cons in_field_plain [OF f', of "[c]" row "CR # LF # rest"]
      by (simp add: write_field_def special_char_def)
  qed
qed

lemma fields_then_crlf:
  "fs \<noteq> [] \<Longrightarrow>
     csv_reader START_FIELD [] row (join_fields (map write_field fs) @ CR # LF # rest) =
       (row @ fs) # csv_reader START_RECORD [] [] rest"
proof (induction fs arbitrary: row rule: join_fields.induct)
  case 1
  then show ?case by simp
next
  case (2 f)
  then show ?case by (simp add: field_then_crlf)
next
  case (3 f g fs)
  have "csv_reader START_FIELD [] (row @ [f]) (join_fields (map write_field (g # fs)) @ CR # LF # rest) =
          ((row @ [f]) @ g # fs) # csv_reader START_RECORD [] [] rest"
    by (rule "3.IH") simp
  then show ?case by (simp add: field_then_comma)
qed


lemma join_fields_Cons:
  "join_fields (x # xs) = x @ (if xs = [] then [] else COMMA # join_fields xs)"
  by (cases xs) simp_all

lemma row_text_starts:
  assumes "row \<noteq> []" "row \<noteq> [[]]"
  shows "\<exists>c cs. join_fields (map write_field row) = c # cs \<and> c \<noteq> CR \<and> c \<noteq> LF"
proof -
  obtain f fs where row: "row = f # fs" using assms(1) by (cases row) auto
  show ?thesis
  proof (cases "needs_quotes f")
    case True
    then show ?thesis by (simp add: row join_fields_Cons write_field_def)
  next
    case False
    show ?thesis
    proof (cases f)
      case Nil
      then have "fs \<noteq> []" using assms(2) row by simp
      then show ?thesis using Nil False by (simp add: row join_fields_Cons write_field_def)
    next
      case (Cons c f')
      then have "\<not> special_char c" using False by (simp add: needs_quotes_def)
      then show ?thesis
        using Cons False by (simp add: row join_fields_Cons write_field_def special_char_def)
    qed
  qed
qed

lemma start_record_is_start_field:
  "c \<noteq> CR \<Longrightarrow> c \<noteq> LF \<Longrightarrow>
     csv_reader START_RECORD fld row (c # cs) = csv_reader START_FIELD [] [] (c # cs)"
  by simp

lemma row_round_trip:
  "csv_reader START_RECORD [] [] (write_row row @ rest) =
     row # csv_reader START_RECORD [] [] rest"
proof (cases "row = []")
  case True
  then show ?thesis by (simp add: write_row_def)
next
  case False
  show ?thesis
  proof (cases "row = [[]]")
    case True
    then show ?thesis by (simp add: write_row_def)
  next
    case single: False
    obtain c cs where t: "join_fields (map write_field row) = c # cs" "c \<noteq> CR" "c \<noteq> LF"
      using row_text_starts [OF False single] by blast
    have "csv_reader START_RECORD [] [] (write_row row @ rest) =
            csv_reader START_RECORD [] [] (c # (cs @ CR # LF # rest))"
      using single t(1) by (simp add: write_row_def)
    also have "\<dots> = csv_reader START_FIELD [] [] (c # (cs @ CR # LF # rest))"
      using t(2,3) by (rule start_record_is_start_field)
    also have "\<dots> = csv_reader START_FIELD [] [] (join_fields (map write_field row) @ CR # LF # rest)"
      by (simp add: t(1))
    also have "\<dots> = ([] @ row) # csv_reader START_RECORD [] [] rest"
      using False by (rule fields_then_crlf)
    finally show ?thesis by simp
  qed
qed

lemma rows_round_trip: "read_csv (export_to_csv data) = data"
  unfolding read_csv_def export_to_csv_def
  by (induction data) (simp_all add: row_round_trip)

text \<open>
  Claim C8. For every header row and every list of data rows, reading the exported text
  back gives the header row followed by the data rows, every cell as it was, whatever
  characters the cells hold. The second part shows the text written for a cell with a
  comma and a cell with a line feed and a double quote.
\<close>

theorem export_to_csv_round_trip:
  "read_csv (export_to_csv (header # rows)) = header # rows \<and>
   export_to_csv [[''Area'', ''Note''], [''North, East'', [CHR ''a'', LF, DQUOTE, CHR ''b'']]] =
     ''Area,Note'' @ [CR, LF, DQUOTE] @ ''North, East'' @ [DQUOTE, COMMA, DQUOTE, CHR ''a'', LF,
       DQUOTE, DQUOTE, CHR ''b'', DQUOTE, CR, LF]"
proof
  show "read_csv (export_to_csv (header # rows)) = header # rows"
    by (rule rows_round_trip)
next
  show "export_to_csv [[''Area'', ''Note''], [''North, East'', [CHR ''a'', LF, DQUOTE, CHR ''b'']]] =
     ''Area,Note'' @ [CR, LF, DQUOTE] @ ''North, East'' @ [DQUOTE, COMMA, DQUOTE, CHR ''a'', LF,
       DQUOTE, DQUOTE, CHR ''b'', DQUOTE, CR, LF]"
    by code_simp
qed

end
